theory Spec2Isabelle
  imports Main "HOL-Library.AList" "HOL-Library.Sublist"
begin

section \<open>Data model (src/core/notification\_service.py)\<close>

text \<open>
  JSON values as \<^verbatim>\<open>response.json()\<close> delivers them: \<open>JNull\<close> is Python's \<^verbatim>\<open>None\<close>,
  an object is a Python dict, written as the list of its items (keys distinct).
\<close>

datatype json =
    JNull
  | JBool bool
  | JNum int
  | JStr string
  | JArr "json list"
  | JObj "(string \<times> json) list"

text \<open>
  The exceptions that occur. All of them are instances of Python's class \<^verbatim>\<open>Exception\<close>,
  which is what the handlers \<^verbatim>\<open>except Exception\<close> catch. The signals outside that class
  (\<^verbatim>\<open>KeyboardInterrupt\<close>, \<^verbatim>\<open>SystemExit\<close>) can arrive at any point of any call and are
  not modelled. Strings are lists of ASCII characters.
\<close>

datatype py_exception =
    AttributeError
  | TypeError
  | KeyError
  | ValueError
  | OtherException string

type_synonym datetime = nat

text \<open>
  The dataclass \<^verbatim>\<open>Notification\<close>. The dataclass does not check its annotations, so the
  fields that a provider fills from a payload hold values of a type \<open>'v\<close>: \<open>string\<close> for a
  provider that respects the annotation \<^verbatim>\<open>id: str\<close>, \<open>json\<close> for the GitHub provider, which
  stores what the payload had. The field \<^verbatim>\<open>id\<close> is called \<open>id_n\<close> and \<^verbatim>\<open>type\<close> is
  called \<open>type_n\<close>.
\<close>

record 'v notification =
  id_n :: 'v
  title :: 'v
  source :: string
  type_n :: string
  timestamp :: datetime
  repository :: "'v option"
  url :: "'v option"
  reason :: "string option"
  raw_data :: "json option"

text \<open>
  A provider (a \<^verbatim>\<open>NotificationService\<close> object): its name, its readiness and the identity
  of the object. What \<^verbatim>\<open>get_notifications()\<close> does during one poll is the \<open>upstream\<close>:
  it returns a list, returns \<^verbatim>\<open>None\<close>, or raises.
\<close>

record service =
  service_ref :: nat
  service_name :: string
  is_configured :: bool

datatype 'v outcome =
    Returns "'v notification list option"
  | Raises py_exception

type_synonym 'v upstream = "service \<Rightarrow> 'v outcome"

text \<open>
  The manager: the list \<^verbatim>\<open>services\<close> and the dict \<^verbatim>\<open>seen_notifications\<close>, a dict being
  the list of its items in insertion order. \<^verbatim>\<open>d[k]\<close> is \<open>map_of d k\<close> (\<open>None\<close> is the
  \<^verbatim>\<open>KeyError\<close>), \<^verbatim>\<open>d[k] = v\<close> is \<open>AList.update k v d\<close>. The ids in the sets are values
  that Python can hash and compares as \<open>'v\<close> does, as strings are.
\<close>

record 'v manager =
  services :: "service list"
  seen_notifications :: "(string \<times> 'v set) list"

definition init_manager :: "'v manager" where
  "init_manager = \<lparr>services = [], seen_notifications = []\<rparr>"

section \<open>NotificationManager\<close>

definition add_service :: "'v manager \<Rightarrow> service \<Rightarrow> 'v manager" where
  "add_service m s =
     (if is_configured s
      then m\<lparr>services := services m @ [s],
             seen_notifications := AList.update (service_name s) {} (seen_notifications m)\<rparr>
      else m)"

text \<open>Python's truth value of an \<^verbatim>\<open>Optional[List]\<close>: \<^verbatim>\<open>None\<close> and \<^verbatim>\<open>[]\<close> are false.\<close>

fun truthy :: "'a list option \<Rightarrow> bool" where
  "truthy None = False"
| "truthy (Some xs) = (xs \<noteq> [])"

text \<open>
  \<^verbatim>\<open>get_all_notifications\<close>: the body of the \<^verbatim>\<open>try\<close> for one service, which raises
  what the provider raises; the body of the loop, whose handler \<^verbatim>\<open>except Exception\<close>
  keeps the list as it was; then the loop. The manager is returned as it was left.
\<close>

definition get_all_try ::
  "'v upstream \<Rightarrow> 'v notification list \<Rightarrow> service \<Rightarrow> py_exception + 'v notification list" where
  "get_all_try w all_notifications s =
     (case w s of
        Raises e \<Rightarrow> Inl e
      | Returns notifications \<Rightarrow>
          Inr (if truthy notifications then all_notifications @ the notifications
               else all_notifications))"

definition get_all_step ::
  "'v upstream \<Rightarrow> 'v notification list \<Rightarrow> service \<Rightarrow> 'v notification list" where
  "get_all_step w all_notifications s =
     (case get_all_try w all_notifications s of
        Inl e \<Rightarrow> all_notifications
      | Inr all_notifications' \<Rightarrow> all_notifications')"

fun get_all_loop ::
  "'v upstream \<Rightarrow> 'v notification list \<Rightarrow> service list \<Rightarrow> 'v notification list" where
  "get_all_loop w all_notifications [] = all_notifications"
| "get_all_loop w all_notifications (s # ss) =
     get_all_loop w (get_all_step w all_notifications s) ss"

definition get_all_notifications ::
  "'v upstream \<Rightarrow> 'v manager \<Rightarrow> 'v notification list \<times> 'v manager" where
  "get_all_notifications w m = (get_all_loop w [] (services m), m)"

text \<open>
  \<^verbatim>\<open>get_new_notifications\<close>: the inner loop over one provider's notifications, which
  appends to \<^verbatim>\<open>new_notifications\<close> and adds to the set \<^verbatim>\<open>service_seen\<close>; the body of the
  \<^verbatim>\<open>try\<close>, where the set is the one stored in the dict, so adding to it changes the
  dict's entry, and a name that is no key raises \<^verbatim>\<open>KeyError\<close>; the body of the outer
  loop, whose handler keeps the list and the dict as the \<^verbatim>\<open>try\<close> left them (the inner loop
  does not raise, so this is as they were before it); and the outer loop.
\<close>

fun filter_new ::
  "'v notification list \<Rightarrow> 'v set \<Rightarrow> 'v notification list \<Rightarrow> 'v notification list \<times> 'v set" where
  "filter_new new_notifications service_seen [] = (new_notifications, service_seen)"
| "filter_new new_notifications service_seen (n # ns) =
     (if id_n n \<notin> service_seen
      then filter_new (new_notifications @ [n]) (insert (id_n n) service_seen) ns
      else filter_new new_notifications service_seen ns)"

definition get_new_try ::
  "'v upstream \<Rightarrow> 'v notification list \<times> (string \<times> 'v set) list \<Rightarrow> service
     \<Rightarrow> py_exception + 'v notification list \<times> (string \<times> 'v set) list" where
  "get_new_try w st s =
     (case w s of
        Raises e \<Rightarrow> Inl e
      | Returns notifications \<Rightarrow>
          if truthy notifications then
            (case map_of (snd st) (service_name s) of
               None \<Rightarrow> Inl KeyError
             | Some service_seen \<Rightarrow>
                 (case filter_new (fst st) service_seen (the notifications) of
                    (new_notifications, service_seen') \<Rightarrow>
                      Inr (new_notifications,
                           AList.update (service_name s) service_seen' (snd st))))
          else Inr st)"

definition get_new_step ::
  "'v upstream \<Rightarrow> 'v notification list \<times> (string \<times> 'v set) list \<Rightarrow> service
     \<Rightarrow> 'v notification list \<times> (string \<times> 'v set) list" where
  "get_new_step w st s =
     (case get_new_try w st s of
        Inl e \<Rightarrow> st
      | Inr st' \<Rightarrow> st')"

fun get_new_loop ::
  "'v upstream \<Rightarrow> 'v notification list \<times> (string \<times> 'v set) list \<Rightarrow> service list
     \<Rightarrow> 'v notification list \<times> (string \<times> 'v set) list" where
  "get_new_loop w st [] = st"
| "get_new_loop w st (s # ss) = get_new_loop w (get_new_step w st s) ss"

definition get_new_notifications ::
  "'v upstream \<Rightarrow> 'v manager \<Rightarrow> 'v notification list \<times> 'v manager" where
  "get_new_notifications w m =
     (case get_new_loop w ([], seen_notifications m) (services m) of
        (new_notifications, seen) \<Rightarrow> (new_notifications, m\<lparr>seen_notifications := seen\<rparr>))"

text \<open>
  \<^verbatim>\<open>mark_notifications_as_seen\<close>: for each notification, the loop over the items of the
  dict adds the id to the set of every item whose key is the notification's source.
\<close>

definition mark_one :: "'v notification \<Rightarrow> (string \<times> 'v set) list \<Rightarrow> (string \<times> 'v set) list" where
  "mark_one notification seen =
     map (\<lambda>(name, seen_set).
            if source notification = name then (name, insert (id_n notification) seen_set)
            else (name, seen_set)) seen"

fun mark_loop :: "(string \<times> 'v set) list \<Rightarrow> 'v notification list \<Rightarrow> (string \<times> 'v set) list" where
  "mark_loop seen [] = seen"
| "mark_loop seen (n # ns) = mark_loop (mark_one n seen) ns"

definition mark_notifications_as_seen ::
  "'v manager \<Rightarrow> 'v notification list \<Rightarrow> 'v manager" where
  "mark_notifications_as_seen m notifications =
     m\<lparr>seen_notifications := mark_loop (seen_notifications m) notifications\<rparr>"

section \<open>GitHubNotificationService (src/services/github\_service.py)\<close>

subsection \<open>The string methods used\<close>

text \<open>
  Python's \<^verbatim>\<open>str.lower\<close>, \<^verbatim>\<open>str.title\<close>, \<^verbatim>\<open>str.strip\<close> and \<^verbatim>\<open>str.replace\<close> on ASCII
  strings. \<^verbatim>\<open>title\<close> upper-cases a letter that follows a character without case and
  lower-cases a letter that follows a letter; every other character is kept. A character
  above 127 is outside the model: these functions keep it, where Python changes the case
  of some and replaces some by several characters. What is proved of the case functions
  is therefore stated for ASCII strings.
\<close>

definition is_upper :: "char \<Rightarrow> bool" where
  "is_upper c \<longleftrightarrow> 65 \<le> (of_char c :: nat) \<and> (of_char c :: nat) \<le> 90"

definition is_lower :: "char \<Rightarrow> bool" where
  "is_lower c \<longleftrightarrow> 97 \<le> (of_char c :: nat) \<and> (of_char c :: nat) \<le> 122"

definition to_lower :: "char \<Rightarrow> char" where
  "to_lower c = (if is_upper c then char_of ((of_char c :: nat) + 32) else c)"

definition to_upper :: "char \<Rightarrow> char" where
  "to_upper c = (if is_lower c then char_of ((of_char c :: nat) - 32) else c)"

definition str_lower :: "string \<Rightarrow> string" where
  "str_lower s = map to_lower s"

fun title_loop :: "bool \<Rightarrow> string \<Rightarrow> string" where
  "title_loop previous_is_cased [] = []"
| "title_loop previous_is_cased (c # cs) =
     (if is_lower c then (if previous_is_cased then c else to_upper c) # title_loop True cs
      else if is_upper c then (if previous_is_cased then to_lower c else c) # title_loop True cs
      else c # title_loop False cs)"

definition str_title :: "string \<Rightarrow> string" where
  "str_title s = title_loop False s"

definition is_space :: "char \<Rightarrow> bool" where
  "is_space c \<longleftrightarrow>
     (9 \<le> (of_char c :: nat) \<and> (of_char c :: nat) \<le> 13)
     \<or> (28 \<le> (of_char c :: nat) \<and> (of_char c :: nat) \<le> 32)"

definition str_strip :: "string \<Rightarrow> string" where
  "str_strip s = rev (dropWhile is_space (rev (dropWhile is_space s)))"

definition replace_Z :: "string \<Rightarrow> string" where
  "replace_Z s = concat (map (\<lambda>c. if c = CHR ''Z'' then ''+00:00'' else [c]) s)"

subsection \<open>Reason to type\<close>

definition type_mapping :: "(string \<times> string) list" where
  "type_mapping =
     [(''assign'', ''Assignment''),
      (''author'', ''Author''),
      (''comment'', ''Comment''),
      (''invitation'', ''Invitation''),
      (''manual'', ''Manual''),
      (''mention'', ''Mention''),
      (''review_requested'', ''Review Request''),
      (''security_alert'', ''Security Alert''),
      (''state_change'', ''State Change''),
      (''subscribed'', ''Subscription''),
      (''team_mention'', ''Team Mention'')]"

definition get_notification_type :: "string \<Rightarrow> string" where
  "get_notification_type reason_s =
     (case map_of type_mapping (str_lower reason_s) of
        Some t \<Rightarrow> t
      | None \<Rightarrow> str_title reason_s)"

subsection \<open>Converting one raw item\<close>

text \<open>
  \<^verbatim>\<open>x.get(key, default)\<close>: only a dict has the method, on any other value the call raises
  \<^verbatim>\<open>AttributeError\<close>. \<^verbatim>\<open>x.lower()\<close> likewise exists on a \<^verbatim>\<open>str\<close> only.
\<close>

fun py_get :: "json \<Rightarrow> string \<Rightarrow> json \<Rightarrow> py_exception + json" where
  "py_get (JObj items) key dflt =
     Inr (case map_of items key of Some v \<Rightarrow> v | None \<Rightarrow> dflt)"
| "py_get _ key dflt = Inl AttributeError"

fun str_methods :: "json \<Rightarrow> py_exception + string" where
  "str_methods (JStr s) = Inr s"
| "str_methods _ = Inl AttributeError"

fun json_truthy :: "json \<Rightarrow> bool" where
  "json_truthy JNull = False"
| "json_truthy (JBool b) = b"
| "json_truthy (JNum n) = (n \<noteq> 0)"
| "json_truthy (JStr s) = (s \<noteq> [])"
| "json_truthy (JArr xs) = (xs \<noteq> [])"
| "json_truthy (JObj items) = (items \<noteq> [])"

fun optional :: "json \<Rightarrow> json option" where
  "optional JNull = None"
| "optional v = Some v"

definition try_bind :: "py_exception + 'a \<Rightarrow> ('a \<Rightarrow> py_exception + 'b) \<Rightarrow> py_exception + 'b" where
  "try_bind r f = (case r of Inl e \<Rightarrow> Inl e | Inr v \<Rightarrow> f v)"

text \<open>
  The timestamp: \<^verbatim>\<open>datetime.fromisoformat\<close> is a parameter (\<open>None\<close> when it raises), and
  so is the reading \<open>now\<close> of the clock. The inner \<^verbatim>\<open>try\<close> has a bare \<^verbatim>\<open>except\<close>: a value
  that is true but no string has no \<^verbatim>\<open>replace\<close>, and the timestamp is the clock's.
\<close>

definition parse_timestamp :: "(string \<Rightarrow> datetime option) \<Rightarrow> datetime \<Rightarrow> json \<Rightarrow> datetime" where
  "parse_timestamp fromisoformat now updated_at =
     (if json_truthy updated_at then
        (case updated_at of
           JStr s \<Rightarrow> (case fromisoformat (replace_Z s) of Some t \<Rightarrow> t | None \<Rightarrow> now)
         | _ \<Rightarrow> now)
      else now)"

text \<open>The body of the \<^verbatim>\<open>try\<close> of \<^verbatim>\<open>_convert_github_notification\<close>, then its handler.\<close>

definition convert_body ::
  "string \<Rightarrow> (string \<Rightarrow> datetime option) \<Rightarrow> datetime \<Rightarrow> json \<Rightarrow> py_exception + json notification" where
  "convert_body name fromisoformat now raw_notification =
     try_bind (py_get raw_notification ''id'' JNull) (\<lambda>notification_id.
     try_bind (py_get raw_notification ''subject'' (JObj [])) (\<lambda>subject.
     try_bind (py_get subject ''title'' (JStr ''No Title'')) (\<lambda>title_v.
     try_bind (py_get raw_notification ''repository'' (JObj [])) (\<lambda>repo.
     try_bind (py_get repo ''full_name'' (JStr ''Unknown Repo'')) (\<lambda>repo_name.
     try_bind (py_get raw_notification ''reason'' (JStr ''unknown'')) (\<lambda>reason_v.
     try_bind (py_get raw_notification ''updated_at'' (JStr [])) (\<lambda>updated_at.
     try_bind (py_get raw_notification ''subject'' (JObj [])) (\<lambda>subject'.
     try_bind (py_get subject' ''url'' JNull) (\<lambda>url_v.
     try_bind (str_methods reason_v) (\<lambda>reason_s.
       Inr \<lparr>id_n = notification_id,
            title = title_v,
            source = name,
            type_n = get_notification_type reason_s,
            timestamp = parse_timestamp fromisoformat now updated_at,
            repository = optional repo_name,
            url = optional url_v,
            reason = Some reason_s,
            raw_data = Some raw_notification\<rparr>))))))))))"

definition convert_github_notification ::
  "string \<Rightarrow> (string \<Rightarrow> datetime option) \<Rightarrow> datetime \<Rightarrow> json \<Rightarrow> json notification option" where
  "convert_github_notification name fromisoformat now raw_notification =
     (case convert_body name fromisoformat now raw_notification of
        Inl e \<Rightarrow> None
      | Inr notification \<Rightarrow> Some notification)"

subsection \<open>Fetching\<close>

record github_service =
  token :: "string option"

definition github_service_name :: string where
  "github_service_name = ''GitHub''"

definition github_is_configured :: "github_service \<Rightarrow> bool" where
  "github_is_configured g =
     (case token g of None \<Rightarrow> False | Some t \<Rightarrow> str_strip t \<noteq> [])"

text \<open>
  What the three calls \<^verbatim>\<open>requests.get\<close>, \<^verbatim>\<open>raise_for_status\<close> and \<^verbatim>\<open>response.json\<close> do
  together: they raise a \<^verbatim>\<open>RequestException\<close>, or some other exception, or deliver
  the decoded body.
\<close>

datatype http_result =
    RequestException string
  | Unrelated py_exception
  | Response json

text \<open>
  \<^verbatim>\<open>for raw in raw_notifications\<close>: a list gives its elements, a dict its keys, a string
  its characters; \<^verbatim>\<open>None\<close>, a number and a boolean raise \<^verbatim>\<open>TypeError\<close>.
\<close>

fun py_iter :: "json \<Rightarrow> py_exception + json list" where
  "py_iter (JArr xs) = Inr xs"
| "py_iter (JObj items) = Inr (map (\<lambda>kv. JStr (fst kv)) items)"
| "py_iter (JStr s) = Inr (map (\<lambda>c. JStr [c]) s)"
| "py_iter _ = Inl TypeError"

text \<open>
  The loop over the raw items; \<open>now i\<close> is the clock while item \<open>i\<close> is converted. A
  \<^verbatim>\<open>Notification\<close> object is always true, so \<^verbatim>\<open>if notification:\<close> only excludes \<^verbatim>\<open>None\<close>.
\<close>

fun convert_loop ::
  "(string \<Rightarrow> datetime option) \<Rightarrow> (nat \<Rightarrow> datetime) \<Rightarrow> nat \<Rightarrow> json notification list
     \<Rightarrow> json list \<Rightarrow> json notification list" where
  "convert_loop fromisoformat now i notifications [] = notifications"
| "convert_loop fromisoformat now i notifications (raw # raws) =
     (case convert_github_notification github_service_name fromisoformat (now i) raw of
        Some notification \<Rightarrow>
          convert_loop fromisoformat now (Suc i) (notifications @ [notification]) raws
      | None \<Rightarrow> convert_loop fromisoformat now (Suc i) notifications raws)"

definition github_get_notifications ::
  "github_service \<Rightarrow> http_result \<Rightarrow> (string \<Rightarrow> datetime option) \<Rightarrow> (nat \<Rightarrow> datetime)
     \<Rightarrow> json outcome" where
  "github_get_notifications g http fromisoformat now =
     (if \<not> github_is_configured g then Returns None
      else
        (case http of
           RequestException e \<Rightarrow> Returns None
         | Unrelated e \<Rightarrow> Raises e
         | Response raw_notifications \<Rightarrow>
             (case py_iter raw_notifications of
                Inl e \<Rightarrow> Raises e
              | Inr raws \<Rightarrow> Returns (Some (convert_loop fromisoformat now 0 [] raws)))))"

section \<open>Notions used to state the properties\<close>

text \<open>The seen set of a provider name: \<^verbatim>\<open>seen_notifications.get(name)\<close>.\<close>

definition seen_set :: "'v manager \<Rightarrow> string \<Rightarrow> 'v set option" where
  "seen_set m name = map_of (seen_notifications m) name"

text \<open>The manager with another list of services and the same seen sets.\<close>

definition with_services :: "'v manager \<Rightarrow> service list \<Rightarrow> 'v manager" where
  "with_services m ss = m\<lparr>services := ss\<rparr>"

text \<open>What the inner loop appends when it starts from the set \<open>S\<close>.\<close>

definition news :: "'v set \<Rightarrow> 'v notification list \<Rightarrow> 'v notification list" where
  "news S ns = fst (filter_new [] S ns)"

text \<open>
  What one provider adds to the result of \<^verbatim>\<open>get_new_notifications\<close> when the dict is
  \<open>seen\<close>, and the dict afterwards.
\<close>

definition contribution ::
  "'v upstream \<Rightarrow> (string \<times> 'v set) list \<Rightarrow> service \<Rightarrow> 'v notification list" where
  "contribution w seen s =
     (case w s of
        Returns (Some ns) \<Rightarrow>
          (case map_of seen (service_name s) of Some S \<Rightarrow> news S ns | None \<Rightarrow> [])
      | _ \<Rightarrow> [])"

definition seen_after ::
  "'v upstream \<Rightarrow> (string \<times> 'v set) list \<Rightarrow> service \<Rightarrow> (string \<times> 'v set) list" where
  "seen_after w seen s =
     (case w s of
        Returns (Some ns) \<Rightarrow>
          (case map_of seen (service_name s) of
             Some S \<Rightarrow> AList.update (service_name s) (S \<union> id_n ` set ns) seen
           | None \<Rightarrow> seen)
      | _ \<Rightarrow> seen)"

text \<open>
  Every id that the provider returns during this poll is already in the seen set of the
  provider's name.
\<close>

definition covered :: "'v upstream \<Rightarrow> (string \<times> 'v set) list \<Rightarrow> service \<Rightarrow> bool" where
  "covered w seen s =
     (case w s of
        Returns (Some ns) \<Rightarrow>
          (case map_of seen (service_name s) of
             Some S \<Rightarrow> id_n ` set ns \<subseteq> S
           | None \<Rightarrow> True)
      | _ \<Rightarrow> True)"

text \<open>The provider adds nothing to a result: it raises, or returns \<^verbatim>\<open>None\<close> or \<^verbatim>\<open>[]\<close>.\<close>

definition silent :: "'v upstream \<Rightarrow> service \<Rightarrow> bool" where
  "silent w s = (case w s of Raises e \<Rightarrow> True | Returns r \<Rightarrow> \<not> truthy r)"

text \<open>
  Every notification that a provider returns carries the provider's name in its field
  \<^verbatim>\<open>source\<close>, as the GitHub provider's do (\<^verbatim>\<open>source=self.service_name\<close>).
\<close>

definition sources_ok :: "'v upstream \<Rightarrow> service list \<Rightarrow> bool" where
  "sources_ok w ss =
     list_all (\<lambda>s. case w s of
                      Returns (Some ns) \<Rightarrow> list_all (\<lambda>n. source n = service_name s) ns
                    | _ \<Rightarrow> True) ss"

text \<open>
  The states that \<^verbatim>\<open>__init__\<close> and \<^verbatim>\<open>add_service\<close> build: the keys of the dict are the
  names of the registered services, each once.
\<close>

definition manager_ok :: "'v manager \<Rightarrow> bool" where
  "manager_ok m \<longleftrightarrow>
     set (map fst (seen_notifications m)) = set (map service_name (services m))
     \<and> distinct (map fst (seen_notifications m))"

text \<open>The order on dicts of seen sets: no key and no id is lost.\<close>

definition seen_le :: "(string \<times> 'v set) list \<Rightarrow> (string \<times> 'v set) list \<Rightarrow> bool" where
  "seen_le a b \<longleftrightarrow>
     (\<forall>k S. map_of a k = Some S \<longrightarrow> (\<exists>S'. map_of b k = Some S' \<and> S \<subseteq> S'))"

text \<open>What one provider adds to the result of \<^verbatim>\<open>get_all_notifications\<close>.\<close>

definition batch :: "'v upstream \<Rightarrow> service \<Rightarrow> 'v notification list" where
  "batch w s = (case w s of Returns (Some ns) \<Rightarrow> ns | _ \<Rightarrow> [])"

text \<open>How many notifications of a list have the id \<open>i\<close>, and whether a dict has it under a name.\<close>

definition count_id :: "'v \<Rightarrow> 'v notification list \<Rightarrow> nat" where
  "count_id i ns = length (filter (\<lambda>n. id_n n = i) ns)"

definition has_id :: "'v \<Rightarrow> string \<Rightarrow> (string \<times> 'v set) list \<Rightarrow> bool" where
  "has_id i name seen = (case map_of seen name of Some S \<Rightarrow> i \<in> S | None \<Rightarrow> False)"

text \<open>
  ASCII strings, letters, and title case in the words of Python's documentation: a letter
  that begins the string or follows a character that is no letter is upper-cased, a
  letter that follows a letter is lower-cased, every other character is kept. \<open>title_rule r j\<close>
  is the character at position \<open>j\<close> of the title-cased \<open>r\<close>.
\<close>

definition is_ascii :: "char \<Rightarrow> bool" where
  "is_ascii c \<longleftrightarrow> (of_char c :: nat) < 128"

definition is_letter :: "char \<Rightarrow> bool" where
  "is_letter c \<longleftrightarrow> is_upper c \<or> is_lower c"

definition title_rule :: "string \<Rightarrow> nat \<Rightarrow> char" where
  "title_rule r j =
     (if is_letter (r ! j) then
        (if 0 < j \<and> is_letter (r ! (j - 1)) then to_lower (r ! j) else to_upper (r ! j))
      else r ! j)"

section \<open>Concrete providers and polls\<close>

definition notif :: "string \<Rightarrow> string \<Rightarrow> string \<Rightarrow> string notification" where
  "notif src i t =
     \<lparr>id_n = i, title = t, source = src, type_n = ''Mention'', timestamp = 0,
      repository = None, url = None, reason = None, raw_data = None\<rparr>"

definition svc_x :: service where
  "svc_x = \<lparr>service_ref = 1, service_name = ''X'', is_configured = True\<rparr>"

definition svc_y :: service where
  "svc_y = \<lparr>service_ref = 2, service_name = ''Y'', is_configured = True\<rparr>"

definition svc_z :: service where
  "svc_z = \<lparr>service_ref = 3, service_name = ''Z'', is_configured = True\<rparr>"

text \<open>
  \<open>X\<close> returns three items, two of them with the id \<open>1\<close>; \<open>Y\<close> returns one item
  with the id \<open>1\<close>; \<open>Z\<close> fails: it raises in \<open>poll_raise\<close> and returns \<^verbatim>\<open>None\<close> in
  \<open>poll_none\<close>.
\<close>

definition batch_x :: "string notification list" where
  "batch_x = [notif ''X'' ''1'' ''a'', notif ''X'' ''2'' ''b'', notif ''X'' ''1'' ''c'']"

definition batch_y :: "string notification list" where
  "batch_y = [notif ''Y'' ''1'' ''d'']"

definition poll_raise :: "string upstream" where
  "poll_raise s =
     (if service_name s = ''X'' then Returns (Some batch_x)
      else if service_name s = ''Y'' then Returns (Some batch_y)
      else Raises (OtherException ''timeout''))"

definition poll_none :: "string upstream" where
  "poll_none s =
     (if service_name s = ''X'' then Returns (Some batch_x)
      else if service_name s = ''Y'' then Returns (Some batch_y)
      else Returns None)"

definition fresh_xzy :: "string manager" where
  "fresh_xzy =
     \<lparr>services = [svc_x, svc_z, svc_y],
      seen_notifications = [(''X'', {}), (''Z'', {}), (''Y'', {})]\<rparr>"

text \<open>The same manager without the service \<open>Z\<close>, and managers that have polled.\<close>

definition fresh_xy :: "string manager" where
  "fresh_xy =
     \<lparr>services = [svc_x, svc_y],
      seen_notifications = [(''X'', {}), (''Z'', {}), (''Y'', {})]\<rparr>"

definition polled_x :: "string manager" where
  "polled_x = \<lparr>services = [svc_x], seen_notifications = [(''X'', {''1'', ''2''})]\<rparr>"

definition polled_xzy :: "string manager" where
  "polled_xzy =
     \<lparr>services = [svc_x, svc_z, svc_y],
      seen_notifications = [(''X'', {''1'', ''2''}), (''Z'', {}), (''Y'', {''1''})]\<rparr>"

text \<open>
  A GitHub payload of three items, the second with \<^verbatim>\<open>"subject": null\<close>; a parser that
  accepts no date, and a clock.
\<close>

definition raw_ok1 :: json where
  "raw_ok1 = JObj [(''id'', JStr ''1''), (''reason'', JStr ''mention''),
                   (''subject'', JObj [(''title'', JStr ''Fix the build'')])]"

definition raw_bad :: json where
  "raw_bad = JObj [(''id'', JStr ''2''), (''reason'', JStr ''mention''), (''subject'', JNull)]"

definition raw_ok3 :: json where
  "raw_ok3 = JObj [(''id'', JStr ''3''), (''reason'', JStr ''custom_reason'')]"

definition no_parse :: "string \<Rightarrow> datetime option" where
  "no_parse s = None"

definition clock :: "nat \<Rightarrow> datetime" where
  "clock i = 100 + i"


section \<open>Lemmas about the loops\<close>

lemma get_all_loop_append:
  "get_all_loop w acc (xs @ ys) = get_all_loop w (get_all_loop w acc xs) ys"
  by (induction xs arbitrary: acc) simp_all

lemma get_new_loop_append:
  "get_new_loop w st (xs @ ys) = get_new_loop w (get_new_loop w st xs) ys"
  by (induction xs arbitrary: st) simp_all

lemma mark_loop_append: "mark_loop seen (xs @ ys) = mark_loop (mark_loop seen xs) ys"
  by (induction xs arbitrary: seen) simp_all

subsection \<open>The inner loop of \<^verbatim>\<open>get_new_notifications\<close>\<close>

lemma filter_new_fst_acc:
  "fst (filter_new acc S ns) = acc @ fst (filter_new [] S ns)"
proof (induction ns arbitrary: acc S)
  case Nil
  show ?case by simp
next
  case (Cons n ns)
  show ?case
  proof (cases "id_n n \<in> S")
    case True
    then show ?thesis using Cons.IH [of acc S] by simp
  next
    case False
    then show ?thesis
      using Cons.IH [of "acc @ [n]" "insert (id_n n) S"] Cons.IH [of "[n]" "insert (id_n n) S"]
      by simp
  qed
qed

lemma filter_new_snd: "snd (filter_new acc S ns) = S \<union> id_n ` set ns"
  by (induction ns arbitrary: acc S) auto

lemma filter_new_seen_all: "id_n ` set ns \<subseteq> S \<Longrightarrow> filter_new acc S ns = (acc, S)"
  by (induction ns arbitrary: acc S) auto

lemma filter_new_eq: "filter_new acc S ns = (acc @ news S ns, S \<union> id_n ` set ns)"
  using filter_new_fst_acc [of acc S ns] filter_new_snd [of acc S ns]
  by (simp add: news_def prod_eq_iff)

lemma news_Nil: "news S [] = []"
  by (simp add: news_def)

lemma news_Cons:
  "news S (n # ns) = (if id_n n \<in> S then news S ns else n # news (insert (id_n n) S) ns)"
  unfolding news_def using filter_new_fst_acc [of "[n]" "insert (id_n n) S" ns] by simp

lemma news_seen_all: "id_n ` set ns \<subseteq> S \<Longrightarrow> news S ns = []"
  by (simp add: news_def filter_new_seen_all)

lemma news_ids: "id_n ` set (news S ns) = id_n ` set ns - S"
  by (induction ns arbitrary: S) (auto simp: news_Nil news_Cons)

lemma news_subseq: "subseq (news S ns) ns"
  by (induction ns arbitrary: S) (auto simp: news_Nil news_Cons)

lemma news_subset: "set (news S ns) \<subseteq> set ns"
  by (induction ns arbitrary: S) (auto simp: news_Nil news_Cons split: if_splits)

lemma news_distinct: "distinct (map id_n (news S ns))"
proof (induction ns arbitrary: S)
  case Nil
  show ?case by (simp add: news_Nil)
next
  case (Cons n ns)
  have "id_n n \<notin> id_n ` set (news (insert (id_n n) S) ns)"
    by (simp add: news_ids)
  then show ?case using Cons.IH by (simp add: news_Cons)
qed

lemma news_first:
  "n \<in> set (news S ns) \<Longrightarrow> find (\<lambda>x. id_n x = id_n n) ns = Some n"
proof (induction ns arbitrary: S)
  case Nil
  then show ?case by (simp add: news_Nil)
next
  case (Cons a ns)
  show ?case
  proof (cases "id_n a \<in> S")
    case True
    with Cons.prems have m: "n \<in> set (news S ns)" by (simp add: news_Cons)
    then have "id_n n \<in> id_n ` set (news S ns)" by blast
    then have "id_n n \<notin> S" by (simp add: news_ids)
    with True have "id_n a \<noteq> id_n n" by auto
    then show ?thesis using Cons.IH [OF m] by simp
  next
    case False
    with Cons.prems have "n = a \<or> n \<in> set (news (insert (id_n a) S) ns)"
      by (simp add: news_Cons)
    then show ?thesis
    proof
      assume "n = a"
      then show ?thesis by simp
    next
      assume m: "n \<in> set (news (insert (id_n a) S) ns)"
      then have "id_n n \<in> id_n ` set (news (insert (id_n a) S) ns)" by blast
      then have "id_n n \<noteq> id_n a" by (auto simp: news_ids)
      then show ?thesis using Cons.IH [OF m] by simp
    qed
  qed
qed

lemma first_in_news:
  "find (\<lambda>x. id_n x = i) ns = Some n \<Longrightarrow> i \<notin> S \<Longrightarrow> n \<in> set (news S ns)"
proof (induction ns arbitrary: S)
  case Nil
  then show ?case by simp
next
  case (Cons a ns)
  show ?case
  proof (cases "id_n a = i")
    case True
    with Cons.prems show ?thesis by (simp add: news_Cons)
  next
    case False
    with Cons.prems have f: "find (\<lambda>x. id_n x = i) ns = Some n" by simp
    from False Cons.prems(2) have "i \<notin> insert (id_n a) S" by auto
    with f have "n \<in> set (news (insert (id_n a) S) ns)" by (rule Cons.IH)
    moreover from f Cons.prems(2) have "n \<in> set (news S ns)" by (rule Cons.IH)
    ultimately show ?thesis by (simp add: news_Cons)
  qed
qed

subsection \<open>One provider's step\<close>

lemma get_new_step_eq:
  "get_new_step w (acc, seen) s = (acc @ contribution w seen s, seen_after w seen s)"
proof (cases "w s")
  case (Raises e)
  then show ?thesis by (simp add: get_new_step_def get_new_try_def contribution_def seen_after_def)
next
  case (Returns r)
  show ?thesis
  proof (cases r)
    case None
    with Returns show ?thesis by (simp add: get_new_step_def get_new_try_def contribution_def seen_after_def)
  next
    case (Some ns)
    show ?thesis
    proof (cases "map_of seen (service_name s)")
      case None
      with Returns Some show ?thesis
        by (simp add: get_new_step_def get_new_try_def contribution_def seen_after_def)
    next
      case (Some S)
      show ?thesis
      proof (cases "ns = []")
        case True
        with Returns \<open>r = Some ns\<close> Some show ?thesis
          by (simp add: get_new_step_def get_new_try_def contribution_def seen_after_def news_Nil
              AList.update_triv)
      next
        case False
        with Returns \<open>r = Some ns\<close> Some show ?thesis
          by (simp add: get_new_step_def get_new_try_def contribution_def seen_after_def filter_new_eq)
      qed
    qed
  qed
qed

lemma seen_le_refl: "seen_le a a"
  by (simp add: seen_le_def)

lemma seen_le_trans: "seen_le a b \<Longrightarrow> seen_le b c \<Longrightarrow> seen_le a c"
  unfolding seen_le_def by (meson subset_trans)

lemma seen_le_after: "seen_le seen (seen_after w seen s)"
  unfolding seen_le_def seen_after_def
  by (auto simp: AList.update_conv' split: outcome.splits option.splits)

lemma map_of_seen_after_other:
  "k \<noteq> service_name s \<Longrightarrow> map_of (seen_after w seen s) k = map_of seen k"
  unfolding seen_after_def
  by (auto simp: AList.update_conv' split: outcome.splits option.splits)

lemma keys_seen_after: "map fst (seen_after w seen s) = map fst seen"
  unfolding seen_after_def
  by (auto simp: AList.update_keys dest: map_of_SomeD intro: rev_image_eqI
      split: outcome.splits option.splits)

lemma get_new_loop_acc:
  "get_new_loop w (acc, seen) ss =
     (acc @ fst (get_new_loop w ([], seen) ss), snd (get_new_loop w ([], seen) ss))"
proof (induction ss arbitrary: acc seen)
  case Nil
  show ?case by simp
next
  case (Cons s ss)
  show ?case
    using Cons.IH [of "acc @ contribution w seen s" "seen_after w seen s"]
          Cons.IH [of "contribution w seen s" "seen_after w seen s"]
    by (simp add: get_new_step_eq)
qed

lemma seen_le_loop: "seen_le seen (snd (get_new_loop w (acc, seen) ss))"
proof (induction ss arbitrary: acc seen)
  case Nil
  show ?case by (simp add: seen_le_refl)
next
  case (Cons s ss)
  show ?case
    using seen_le_trans [OF seen_le_after Cons.IH] by (simp add: get_new_step_eq)
qed

lemma keys_loop: "map fst (snd (get_new_loop w (acc, seen) ss)) = map fst seen"
  by (induction ss arbitrary: acc seen) (simp_all add: get_new_step_eq keys_seen_after)

lemma key_has_set: "k \<in> set (map fst al) \<Longrightarrow> \<exists>S. map_of al k = Some S"
  by (metis list.set_map map_of_eq_None_iff not_Some_eq)

lemma set_has_key: "map_of al k = Some S \<Longrightarrow> k \<in> set (map fst al)"
  by (metis list.set_map map_of_eq_None_iff option.distinct(1))

subsection \<open>Marking\<close>

lemma map_of_mark_one:
  "map_of (mark_one n seen) k =
     (if k = source n then map_option (insert (id_n n)) (map_of seen k) else map_of seen k)"
  by (induction seen) (auto simp: mark_one_def)

lemma keys_mark_one: "map fst (mark_one n seen) = map fst seen"
  by (induction seen) (auto simp: mark_one_def)

lemma keys_mark_loop: "map fst (mark_loop seen ns) = map fst seen"
  by (induction ns arbitrary: seen) (simp_all add: keys_mark_one)

lemma mark_one_unknown: "source n \<notin> fst ` set seen \<Longrightarrow> mark_one n seen = seen"
  by (induction seen) (auto simp: mark_one_def)

lemma seen_le_mark_one: "seen_le seen (mark_one n seen)"
  unfolding seen_le_def by (auto simp: map_of_mark_one)

lemma seen_le_mark_loop: "seen_le seen (mark_loop seen ns)"
proof (induction ns arbitrary: seen)
  case Nil
  show ?case by (simp add: seen_le_refl)
next
  case (Cons n ns)
  show ?case using seen_le_trans [OF seen_le_mark_one Cons.IH] by simp
qed

lemma mark_loop_marks:
  assumes "n \<in> set ns" and "map_of (mark_loop seen ns) (source n) = Some S'"
  shows "id_n n \<in> S'"
proof -
  from assms(1) obtain pre post where ns: "ns = pre @ n # post"
    by (auto simp: in_set_conv_decomp)
  let ?a = "mark_loop seen pre"
  let ?b = "mark_one n ?a"
  have fin: "mark_loop seen ns = mark_loop ?b post"
    by (simp add: ns mark_loop_append)
  have keys: "map fst (mark_loop ?b post) = map fst ?a"
    by (simp add: keys_mark_loop keys_mark_one)
  from assms(2) fin have "map_of (mark_loop ?b post) (source n) = Some S'"
    by simp
  then have "source n \<in> set (map fst (mark_loop ?b post))"
    by (rule set_has_key)
  then have "source n \<in> set (map fst ?a)"
    using keys by simp
  then obtain S where S: "map_of ?a (source n) = Some S"
    using key_has_set by fastforce
  then have "map_of ?b (source n) = Some (insert (id_n n) S)"
    by (simp add: map_of_mark_one)
  with seen_le_mark_loop [of ?b post] obtain S2
    where "map_of (mark_loop ?b post) (source n) = Some S2" and "insert (id_n n) S \<subseteq> S2"
    unfolding seen_le_def by blast
  with assms(2) fin show ?thesis by auto
qed

subsection \<open>Providers that have nothing new\<close>

lemma covered_step_id:
  assumes "covered w seen s"
  shows "get_new_step w (acc, seen) s = (acc, seen)"
proof -
  have c: "contribution w seen s = []"
    using assms unfolding covered_def contribution_def
    by (auto simp: news_seen_all split: outcome.splits option.splits)
  have "seen_after w seen s = seen"
    using assms unfolding covered_def seen_after_def
    by (auto simp: Un_absorb2 AList.update_triv split: outcome.splits option.splits)
  with c show ?thesis by (simp add: get_new_step_eq)
qed

lemma covered_mono:
  assumes "covered w seen s" and "seen_le seen seen'" and "map fst seen' = map fst seen"
  shows "covered w seen' s"
proof (cases "w s")
  case (Raises e)
  then show ?thesis by (simp add: covered_def)
next
  case (Returns r)
  show ?thesis
  proof (cases r)
    case None
    with Returns show ?thesis by (simp add: covered_def)
  next
    case (Some ns)
    show ?thesis
    proof (cases "map_of seen' (service_name s)")
      case None
      with Returns Some show ?thesis by (simp add: covered_def)
    next
      case (Some S')
      then have "service_name s \<in> set (map fst seen')" by (rule set_has_key)
      then have "service_name s \<in> set (map fst seen)" using assms(3) by simp
      then obtain S where S: "map_of seen (service_name s) = Some S"
        using key_has_set by fastforce
      with assms(1) Returns \<open>r = Some ns\<close> have "id_n ` set ns \<subseteq> S"
        by (simp add: covered_def)
      moreover from assms(2) S Some have "S \<subseteq> S'" unfolding seen_le_def by fastforce
      ultimately show ?thesis using Returns \<open>r = Some ns\<close> Some
        by (auto simp: covered_def)
    qed
  qed
qed

lemma covered_after_step: "covered w (seen_after w seen s) s"
  unfolding covered_def seen_after_def
  by (auto simp: AList.update_conv' split: outcome.splits option.splits)

lemma covered_loop_id:
  "list_all (covered w seen) ss \<Longrightarrow> get_new_loop w (acc, seen) ss = (acc, seen)"
  by (induction ss) (simp_all add: covered_step_id)

lemma covered_after_loop:
  "s \<in> set ss \<Longrightarrow> covered w (snd (get_new_loop w (acc, seen) ss)) s"
proof (induction ss arbitrary: acc seen)
  case Nil
  then show ?case by simp
next
  case (Cons a ss)
  let ?acc = "acc @ contribution w seen a"
  let ?seen = "seen_after w seen a"
  show ?case
  proof (cases "s \<in> set ss")
    case True
    then show ?thesis using Cons.IH [of ?acc ?seen] by (simp add: get_new_step_eq)
  next
    case False
    with Cons.prems have "s = a" by simp
    then have "covered w ?seen s" by (simp add: covered_after_step)
    then have "covered w (snd (get_new_loop w (?acc, ?seen) ss)) s"
      by (rule covered_mono) (simp_all add: seen_le_loop keys_loop)
    then show ?thesis by (simp add: get_new_step_eq)
  qed
qed

lemma get_new_loop_remove:
  assumes "covered w seen s"
  shows "get_new_loop w (acc, seen) (pre @ s # post) = get_new_loop w (acc, seen) (pre @ post)"
proof -
  obtain acc1 seen1 where st: "get_new_loop w (acc, seen) pre = (acc1, seen1)"
    by (cases "get_new_loop w (acc, seen) pre")
  have "seen_le seen seen1" and "map fst seen1 = map fst seen"
    using seen_le_loop [of seen w acc pre] keys_loop [of w acc seen pre] st by simp_all
  with assms have "covered w seen1 s" by (rule covered_mono)
  then have "get_new_step w (acc1, seen1) s = (acc1, seen1)" by (rule covered_step_id)
  then show ?thesis by (simp add: get_new_loop_append st)
qed

lemma get_all_step_nothing:
  assumes "\<not> truthy r" and "w s = Returns r \<or> w s = Raises e"
  shows "get_all_step w acc s = acc"
  using assms by (auto simp: get_all_step_def get_all_try_def)

lemma get_all_loop_remove:
  assumes "\<And>acc. get_all_step w acc s = acc"
  shows "get_all_loop w acc (pre @ s # post) = get_all_loop w acc (pre @ post)"
  using assms by (simp add: get_all_loop_append)

subsection \<open>The calls\<close>

lemma get_new_notifications_eq:
  "get_new_notifications w m =
     (fst (get_new_loop w ([], seen_notifications m) (services m)),
      m\<lparr>seen_notifications := snd (get_new_loop w ([], seen_notifications m) (services m))\<rparr>)"
  by (simp add: get_new_notifications_def split: prod.splits)

lemma seen_le_get_new:
  "seen_le (seen_notifications m) (seen_notifications (snd (get_new_notifications w m)))"
  using seen_le_loop [of "seen_notifications m" w "[]" "services m"]
  by (simp add: get_new_notifications_eq)

lemma map_of_add_service_other:
  "name \<noteq> service_name s \<Longrightarrow> seen_set (add_service m s) name = seen_set m name"
  by (simp add: add_service_def seen_set_def AList.update_conv')

subsection \<open>Reachable states, silent providers\<close>

lemma manager_ok_init: "manager_ok init_manager"
  by (simp add: manager_ok_def init_manager_def)

lemma manager_ok_add_service:
  assumes "manager_ok m"
  shows "manager_ok (add_service m s)"
proof (cases "is_configured s")
  case False
  then show ?thesis using assms by (simp add: add_service_def)
next
  case True
  let ?al = "AList.update (service_name s) {} (seen_notifications m)"
  have "set (map fst ?al) = {service_name s} \<union> set (map fst (seen_notifications m))"
    using AList.dom_update [of "service_name s" "{}" "seen_notifications m"] by simp
  moreover have "distinct (map fst ?al)"
    using assms by (simp add: manager_ok_def AList.distinct_update)
  ultimately show ?thesis
    using assms True by (auto simp: manager_ok_def add_service_def)
qed

lemma manager_ok_get_all: "manager_ok m \<Longrightarrow> manager_ok (snd (get_all_notifications w m))"
  by (simp add: get_all_notifications_def)

lemma manager_ok_get_new: "manager_ok m \<Longrightarrow> manager_ok (snd (get_new_notifications w m))"
  by (simp add: manager_ok_def get_new_notifications_eq keys_loop)

lemma manager_ok_mark: "manager_ok m \<Longrightarrow> manager_ok (mark_notifications_as_seen m ns)"
  by (simp add: manager_ok_def mark_notifications_as_seen_def keys_mark_loop)

lemma mark_loop_unknown:
  "source n \<notin> set (map fst seen) \<Longrightarrow> mark_loop seen (pre @ n # post) = mark_loop seen (pre @ post)"
proof -
  assume u: "source n \<notin> set (map fst seen)"
  have "map fst (mark_loop seen pre) = map fst seen" by (rule keys_mark_loop)
  with u have "source n \<notin> fst ` set (mark_loop seen pre)"
    by (metis list.set_map)
  then have "mark_one n (mark_loop seen pre) = mark_loop seen pre"
    by (rule mark_one_unknown)
  then show ?thesis by (simp add: mark_loop_append)
qed

lemma get_all_loop_cong:
  "(\<And>s acc. s \<in> set ss \<Longrightarrow> get_all_step w acc s = get_all_step w' acc s)
     \<Longrightarrow> get_all_loop w acc ss = get_all_loop w' acc ss"
  by (induction ss arbitrary: acc) simp_all

lemma get_new_loop_cong:
  "(\<And>s st. s \<in> set ss \<Longrightarrow> get_new_step w st s = get_new_step w' st s)
     \<Longrightarrow> get_new_loop w st ss = get_new_loop w' st ss"
  by (induction ss arbitrary: st) simp_all

lemma silent_get_all_step:
  assumes "silent w s"
  shows "get_all_step w acc s = acc"
  using assms by (auto simp: get_all_step_def get_all_try_def silent_def split: outcome.splits)

lemma silent_get_new_step:
  assumes "silent w s"
  shows "get_new_step w st s = st"
  using assms by (auto simp: get_new_step_def get_new_try_def silent_def split: outcome.splits)

lemma silent_covered:
  assumes "silent w s"
  shows "covered w seen s"
  using assms by (auto simp: covered_def silent_def split: outcome.splits option.splits)

lemma silent_removed:
  assumes "silent w s"
    and "services m = pre @ s # post"
  shows "fst (get_all_notifications w m) = fst (get_all_notifications w (with_services m (pre @ post)))"
    and "fst (get_new_notifications w m) = fst (get_new_notifications w (with_services m (pre @ post)))"
    and "seen_notifications (snd (get_new_notifications w m))
           = seen_notifications (snd (get_new_notifications w (with_services m (pre @ post))))"
proof -
  have a: "get_all_step w acc s = acc" for acc
    using assms(1) by (rule silent_get_all_step)
  show "fst (get_all_notifications w m) = fst (get_all_notifications w (with_services m (pre @ post)))"
    using get_all_loop_remove [of w s "[]" pre post, OF a]
    by (simp add: get_all_notifications_def with_services_def assms(2))
  have c: "covered w (seen_notifications m) s"
    using assms(1) by (rule silent_covered)
  have r: "get_new_loop w ([], seen_notifications m) (pre @ s # post)
         = get_new_loop w ([], seen_notifications m) (pre @ post)"
    using c by (rule get_new_loop_remove)
  show "fst (get_new_notifications w m) = fst (get_new_notifications w (with_services m (pre @ post)))"
    using r by (simp add: get_new_notifications_eq with_services_def assms(2))
  show "seen_notifications (snd (get_new_notifications w m))
           = seen_notifications (snd (get_new_notifications w (with_services m (pre @ post))))"
    using r by (simp add: get_new_notifications_eq with_services_def assms(2))
qed

lemma silent_as_empty:
  assumes "silent w s"
  shows "get_all_notifications (w(s := Returns (Some []))) m = get_all_notifications w m"
    and "get_new_notifications (w(s := Returns (Some []))) m = get_new_notifications w m"
proof -
  let ?w = "w(s := Returns (Some []))"
  have a: "get_all_step ?w acc t = get_all_step w acc t" for acc t
  proof (cases "t = s")
    case True
    then show ?thesis using silent_get_all_step [OF assms, of acc]
      by (simp add: get_all_step_def get_all_try_def)
  next
    case False
    then show ?thesis by (simp add: get_all_step_def get_all_try_def)
  qed
  have n: "get_new_step ?w st t = get_new_step w st t" for st t
  proof (cases "t = s")
    case True
    then show ?thesis using silent_get_new_step [OF assms, of st]
      by (simp add: get_new_step_def get_new_try_def)
  next
    case False
    then show ?thesis by (simp add: get_new_step_def get_new_try_def)
  qed
  show "get_all_notifications ?w m = get_all_notifications w m"
    using get_all_loop_cong [of "services m" ?w w "[]"] a
    by (simp add: get_all_notifications_def)
  show "get_new_notifications ?w m = get_new_notifications w m"
    using get_new_loop_cong [of "services m" ?w w "([], seen_notifications m)"] n
    by (simp add: get_new_notifications_eq)
qed

subsection \<open>The baseline: marking what \<^verbatim>\<open>get_all_notifications\<close> returned\<close>

lemma get_all_loop_acc:
  "get_all_loop w acc ss = acc @ get_all_loop w [] ss"
proof (induction ss arbitrary: acc)
  case Nil
  show ?case by simp
next
  case (Cons s ss)
  show ?case
    using Cons.IH [of "get_all_step w acc s"] Cons.IH [of "get_all_step w [] s"]
    by (auto simp: get_all_step_def get_all_try_def split: outcome.splits)
qed

lemma get_all_loop_batch:
  assumes "s \<in> set ss" and "w s = Returns (Some ns)"
  shows "set ns \<subseteq> set (get_all_loop w acc ss)"
proof -
  from assms(1) obtain pre post where ss: "ss = pre @ s # post"
    by (auto simp: in_set_conv_decomp)
  let ?a = "get_all_loop w acc pre"
  have "set ns \<subseteq> set (get_all_step w ?a s)"
    using assms(2) by (auto simp: get_all_step_def get_all_try_def)
  moreover have "get_all_loop w acc ss = get_all_step w ?a s @ get_all_loop w [] post"
    using get_all_loop_acc [of w "get_all_step w ?a s" post]
    by (simp add: ss get_all_loop_append)
  ultimately show ?thesis by auto
qed

lemma sources_okD:
  "sources_ok w ss \<Longrightarrow> s \<in> set ss \<Longrightarrow> w s = Returns (Some ns) \<Longrightarrow> n \<in> set ns
     \<Longrightarrow> source n = service_name s"
  by (auto simp: sources_ok_def list_all_iff)

lemma covered_after_baseline:
  assumes "sources_ok w ss" and "s \<in> set ss"
  shows "covered w (mark_loop seen (get_all_loop w [] ss)) s"
proof (cases "w s")
  case (Raises e)
  then show ?thesis by (simp add: covered_def)
next
  case (Returns r)
  show ?thesis
  proof (cases r)
    case None
    with Returns show ?thesis by (simp add: covered_def)
  next
    case (Some ns)
    let ?seen = "mark_loop seen (get_all_loop w [] ss)"
    show ?thesis
    proof (cases "map_of ?seen (service_name s)")
      case None
      with Returns Some show ?thesis by (simp add: covered_def)
    next
      case (Some S')
      have "id_n n \<in> S'" if n: "n \<in> set ns" for n
      proof -
        from n assms(2) Returns \<open>r = Some ns\<close> have "n \<in> set (get_all_loop w [] ss)"
          using get_all_loop_batch [of s ss w ns "[]"] by auto
        moreover have "source n = service_name s"
          using assms Returns \<open>r = Some ns\<close> n by (auto dest: sources_okD)
        ultimately show ?thesis
          using Some mark_loop_marks [of n "get_all_loop w [] ss" seen S'] by simp
      qed
      then show ?thesis using Returns \<open>r = Some ns\<close> Some
        by (auto simp: covered_def)
    qed
  qed
qed

subsection \<open>Results as concatenations, and counting ids\<close>

lemma get_all_step_batch: "get_all_step w acc s = acc @ batch w s"
  by (auto simp: get_all_step_def get_all_try_def batch_def split: outcome.splits option.splits)

lemma get_all_loop_concat: "get_all_loop w acc ss = acc @ concat (map (batch w) ss)"
  by (induction ss arbitrary: acc) (simp_all add: get_all_step_batch)

lemma get_new_loop_concat:
  "distinct (map service_name ss) \<Longrightarrow>
     fst (get_new_loop w (acc, seen) ss) = acc @ concat (map (contribution w seen) ss)"
proof (induction ss arbitrary: acc seen)
  case Nil
  show ?case by simp
next
  case (Cons s ss)
  have c: "contribution w (seen_after w seen s) t = contribution w seen t" if "t \<in> set ss" for t
  proof -
    from Cons.prems have "service_name s \<notin> set (map service_name ss)" by simp
    moreover from that have "service_name t \<in> set (map service_name ss)" by simp
    ultimately have "service_name t \<noteq> service_name s" by metis
    then show ?thesis
      by (simp add: contribution_def map_of_seen_after_other
          split: outcome.splits option.splits)
  qed
  have m: "map (contribution w (seen_after w seen s)) ss = map (contribution w seen) ss"
    by (rule map_cong [OF refl]) (rule c)
  from Cons.prems have "distinct (map service_name ss)" by simp
  then have "fst (get_new_loop w (acc @ contribution w seen s, seen_after w seen s) ss)
      = (acc @ contribution w seen s) @ concat (map (contribution w (seen_after w seen s)) ss)"
    by (rule Cons.IH)
  then show ?case by (simp add: get_new_step_eq m)
qed










lemma map_of_loop_other:
  "(\<forall>t \<in> set ss. service_name t \<noteq> k)
     \<Longrightarrow> map_of (snd (get_new_loop w (acc, seen) ss)) k = map_of seen k"
proof (induction ss arbitrary: acc seen)
  case Nil
  show ?case by simp
next
  case (Cons a ss)
  from Cons.prems have "k \<noteq> service_name a" by auto
  then have "map_of (seen_after w seen a) k = map_of seen k"
    by (rule map_of_seen_after_other)
  moreover from Cons.prems have "\<forall>t \<in> set ss. service_name t \<noteq> k" by simp
  ultimately show ?case
    using Cons.IH [of "acc @ contribution w seen a" "seen_after w seen a"]
    by (simp add: get_new_step_eq)
qed

lemma first_served:
  assumes "s \<in> set ss" and only: "\<forall>t \<in> set ss. service_name t = service_name s \<longrightarrow> t = s"
    and "w s = Returns (Some ns)" and "map_of seen (service_name s) = Some S"
  shows "set (news S ns) \<subseteq> set (fst (get_new_loop w (acc, seen) ss))"
proof -
  from assms(1) obtain pre post where ss: "ss = pre @ s # post" and np: "s \<notin> set pre"
    by (auto dest: split_list_first)
  obtain acc1 seen1 where st: "get_new_loop w (acc, seen) pre = (acc1, seen1)"
    by (cases "get_new_loop w (acc, seen) pre")
  have "\<forall>t \<in> set pre. service_name t \<noteq> service_name s"
    using only np ss by auto
  then have "map_of seen1 (service_name s) = map_of seen (service_name s)"
    using map_of_loop_other [of pre "service_name s" w acc seen] st by simp
  then have c: "contribution w seen1 s = news S ns"
    using assms(3,4) by (simp add: contribution_def)
  have "get_new_loop w (acc, seen) ss
          = get_new_loop w (acc1 @ news S ns, seen_after w seen1 s) post"
    by (simp add: ss get_new_loop_append st get_new_step_eq c)
  then have "fst (get_new_loop w (acc, seen) ss)
          = (acc1 @ news S ns) @ fst (get_new_loop w ([], seen_after w seen1 s) post)"
    using get_new_loop_acc [of w "acc1 @ news S ns" "seen_after w seen1 s" post] by simp
  then show ?thesis by auto
qed

text \<open>Every id that a call adds to a seen set is the id of a notification it returns.\<close>

lemma new_ids_step:
  assumes "map_of seen k = Some S" and "map_of (seen_after w seen s) k = Some S'"
  shows "S' - S \<subseteq> id_n ` set (contribution w seen s)"
proof (cases "k = service_name s")
  case False
  then have "map_of (seen_after w seen s) k = map_of seen k"
    by (rule map_of_seen_after_other)
  with assms show ?thesis by simp
next
  case True
  show ?thesis
  proof (cases "w s")
    case (Raises e)
    with assms show ?thesis by (simp add: seen_after_def)
  next
    case (Returns r)
    show ?thesis
    proof (cases r)
      case None
      with Returns assms show ?thesis by (simp add: seen_after_def)
    next
      case (Some ns)
      with Returns assms True have "S' = S \<union> id_n ` set ns"
        by (simp add: seen_after_def AList.update_conv')
      moreover have "contribution w seen s = news S ns"
        using Returns Some assms(1) True by (simp add: contribution_def)
      ultimately show ?thesis by (auto simp: news_ids)
    qed
  qed
qed

lemma new_ids_loop:
  assumes "map_of seen k = Some S"
    and "map_of (snd (get_new_loop w ([], seen) ss)) k = Some S'"
  shows "S' - S \<subseteq> id_n ` set (fst (get_new_loop w ([], seen) ss))"
  using assms
proof (induction ss arbitrary: seen S)
  case Nil
  then show ?case by simp
next
  case (Cons s ss)
  let ?c = "contribution w seen s"
  let ?seen = "seen_after w seen s"
  from seen_le_after [of seen w s] Cons.prems(1) obtain S1
    where S1: "map_of ?seen k = Some S1"
    unfolding seen_le_def by blast
  have split: "get_new_loop w ([], seen) (s # ss)
      = (?c @ fst (get_new_loop w ([], ?seen) ss), snd (get_new_loop w ([], ?seen) ss))"
    using get_new_loop_acc [of w ?c ?seen ss] by (simp add: get_new_step_eq)
  from Cons.prems(2) [unfolded split]
  have fin: "map_of (snd (get_new_loop w ([], ?seen) ss)) k = Some S'"
    by simp
  have a: "S1 - S \<subseteq> id_n ` set ?c"
    using Cons.prems(1) S1 by (rule new_ids_step)
  have b: "S' - S1 \<subseteq> id_n ` set (fst (get_new_loop w ([], ?seen) ss))"
    using S1 fin by (rule Cons.IH)
  from a b show ?case unfolding split by auto
qed

lemma unseen_ids_in_result:
  assumes "t \<in> set ss" and "w t = Returns (Some ns)"
    and "map_of seen (service_name t) = Some S"
  shows "id_n ` set ns - S \<subseteq> id_n ` set (fst (get_new_loop w ([], seen) ss))"
proof -
  let ?fin = "snd (get_new_loop w ([], seen) ss)"
  from seen_le_loop [of seen w "[]" ss] assms(3) obtain S'
    where S': "map_of ?fin (service_name t) = Some S'"
    unfolding seen_le_def by blast
  from covered_after_loop [OF assms(1), of w "[]" seen] assms(2) S'
  have "id_n ` set ns \<subseteq> S'" by (simp add: covered_def)
  moreover have "S' - S \<subseteq> id_n ` set (fst (get_new_loop w ([], seen) ss))"
    using assms(3) S' by (rule new_ids_loop)
  ultimately show ?thesis by auto
qed

subsection \<open>Title case\<close>

lemma to_lower_idem: "to_lower (to_lower c) = to_lower c"
  by (simp add: to_lower_def is_upper_def)

lemma to_lower_to_upper: "to_lower (to_upper c) = to_lower c"
proof (cases "is_lower c")
  case False
  then show ?thesis by (simp add: to_upper_def)
next
  case True
  then have r: "97 \<le> (of_char c :: nat)" "(of_char c :: nat) \<le> 122"
    by (simp_all add: is_lower_def)
  then have m: "((of_char c :: nat) - 32) mod 256 = of_char c - 32" by simp
  have b: "65 \<le> (of_char c :: nat) - 32 \<and> (of_char c :: nat) - 32 \<le> 90"
    using r by arith
  have u: "is_upper (char_of ((of_char c :: nat) - 32))"
    using b by (simp add: is_upper_def m)
  have "\<not> is_upper c" using r by (simp add: is_upper_def)
  then have "to_lower c = c" by (simp add: to_lower_def)
  moreover have "to_lower (to_upper c) = char_of (((of_char c :: nat) - 32) + 32)"
    using True u by (simp add: to_upper_def to_lower_def m)
  moreover have "((of_char c :: nat) - 32) + 32 = of_char c" using r by simp
  ultimately show ?thesis by simp
qed

lemma str_lower_title_loop: "str_lower (title_loop b s) = str_lower s"
  by (induction s arbitrary: b) (simp_all add: str_lower_def to_lower_idem to_lower_to_upper)

lemma length_title_loop: "length (title_loop b s) = length s"
  by (induction s arbitrary: b) simp_all

lemma not_both_cases: "is_lower c \<Longrightarrow> \<not> is_upper c"
  by (simp add: is_lower_def is_upper_def)

lemma title_loop_nth:
  "j < length s \<Longrightarrow>
     title_loop b s ! j =
       (if is_letter (s ! j) then
          (if (j = 0 \<and> b) \<or> (0 < j \<and> is_letter (s ! (j - 1))) then to_lower (s ! j)
           else to_upper (s ! j))
        else s ! j)"
proof (induction s arbitrary: b j)
  case Nil
  then show ?case by simp
next
  case (Cons c cs)
  show ?case
  proof (cases j)
    case 0
    then show ?thesis
      by (auto simp: is_letter_def to_lower_def to_upper_def dest: not_both_cases)
  next
    case (Suc k)
    with Cons.prems have k: "k < length cs" by simp
    have t: "title_loop b (c # cs) ! j = title_loop (is_letter c) cs ! k"
      using Suc by (auto simp: is_letter_def dest: not_both_cases)
    have p: "((k = 0 \<and> is_letter c) \<or> (0 < k \<and> is_letter (cs ! (k - 1))))
        = is_letter ((c # cs) ! (j - 1))"
      using Suc by (cases k) simp_all
    show ?thesis
      unfolding t Cons.IH [OF k, of "is_letter c"] p using Suc by simp
  qed
qed

lemma str_title_rule: "str_title r = map (title_rule r) [0..<length r]"
  by (rule nth_equalityI)
     (simp_all add: str_title_def length_title_loop title_loop_nth title_rule_def)

subsection \<open>Source and id in the result of \<^verbatim>\<open>get_new_notifications\<close>\<close>

lemma has_id_mono: "seen_le a b \<Longrightarrow> has_id i k a \<Longrightarrow> has_id i k b"
  unfolding seen_le_def has_id_def by (fastforce split: option.splits)

lemma distinct_pairs_of_ids:
  "distinct (map id_n ns) \<Longrightarrow> distinct (map (\<lambda>n. (source n, id_n n)) ns)"
  by (induction ns) auto

lemma pairs_step:
  assumes d: "distinct (map (\<lambda>n. (source n, id_n n)) acc)"
    and h: "\<forall>n \<in> set acc. has_id (id_n n) (source n) seen"
    and src: "\<forall>n \<in> set (batch w s). source n = service_name s"
  shows "distinct (map (\<lambda>n. (source n, id_n n)) (acc @ contribution w seen s))
       \<and> (\<forall>n \<in> set (acc @ contribution w seen s).
             has_id (id_n n) (source n) (seen_after w seen s))"
proof -
  let ?c = "contribution w seen s"
  let ?k = "service_name s"
  have old: "has_id (id_n n) (source n) (seen_after w seen s)" if "n \<in> set acc" for n
  proof -
    from that h have "has_id (id_n n) (source n) seen" by blast
    with seen_le_after [of seen w s] show ?thesis by (rule has_id_mono)
  qed
  show ?thesis
  proof (cases "?c = []")
    case True
    with d old show ?thesis by simp
  next
    case False
    then obtain ns S where r: "w s = Returns (Some ns)" and S: "map_of seen ?k = Some S"
      and c: "?c = news S ns"
      by (auto simp: contribution_def split: outcome.splits option.splits)
    have src': "source n = ?k" if "n \<in> set ?c" for n
      using that src r c news_subset [of S ns] by (auto simp: batch_def)
    have fresh: "id_n n \<notin> S" if "n \<in> set ?c" for n
    proof -
      from that c have "id_n n \<in> id_n ` set (news S ns)" by simp
      then show ?thesis by (simp add: news_ids)
    qed
    have dc: "distinct (map (\<lambda>n. (source n, id_n n)) ?c)"
      unfolding c by (rule distinct_pairs_of_ids) (rule news_distinct)
    have disj: "(source a, id_n a) \<noteq> (source b, id_n b)"
      if a: "a \<in> set acc" and b: "b \<in> set ?c" for a b
    proof
      assume e: "(source a, id_n a) = (source b, id_n b)"
      from a h have "has_id (id_n a) (source a) seen" by blast
      with e src' [OF b] S have "id_n b \<in> S" by (simp add: has_id_def)
      with fresh [OF b] show False by simp
    qed
    have after: "map_of (seen_after w seen s) ?k = Some (S \<union> id_n ` set ns)"
      using r S by (simp add: seen_after_def AList.update_conv')
    have new: "has_id (id_n n) (source n) (seen_after w seen s)" if "n \<in> set ?c" for n
    proof -
      from that c news_subset [of S ns] have "n \<in> set ns" by auto
      then show ?thesis using src' [OF that] after by (simp add: has_id_def)
    qed
    from d dc disj have "distinct (map (\<lambda>n. (source n, id_n n)) (acc @ ?c))"
      by (auto simp: distinct_map inj_on_def) 
    with old new show ?thesis by auto
  qed
qed

lemma pairs_loop:
  assumes "sources_ok w ss"
    and "distinct (map (\<lambda>n. (source n, id_n n)) acc)"
    and "\<forall>n \<in> set acc. has_id (id_n n) (source n) seen"
  shows "distinct (map (\<lambda>n. (source n, id_n n)) (fst (get_new_loop w (acc, seen) ss)))"
  using assms
proof (induction ss arbitrary: acc seen)
  case Nil
  then show ?case by simp
next
  case (Cons s ss)
  from Cons.prems(1) have src: "\<forall>n \<in> set (batch w s). source n = service_name s"
    and ok: "sources_ok w ss"
    by (auto simp: sources_ok_def batch_def list_all_iff split: outcome.splits option.splits)
  from pairs_step [OF Cons.prems(2,3) src]
  have "distinct (map (\<lambda>n. (source n, id_n n)) (acc @ contribution w seen s))"
    and "\<forall>n \<in> set (acc @ contribution w seen s).
           has_id (id_n n) (source n) (seen_after w seen s)"
    by blast+
  with ok have "distinct (map (\<lambda>n. (source n, id_n n))
      (fst (get_new_loop w (acc @ contribution w seen s, seen_after w seen s) ss)))"
    by (rule Cons.IH)
  then show ?case by (simp add: get_new_step_eq)
qed

lemma contribution_distinct: "distinct (map id_n (contribution w seen s))"
  by (simp add: contribution_def news_distinct split: outcome.splits option.splits)

subsection \<open>The loop over the raw items\<close>

lemma convert_loop_acc:
  "convert_loop f now i acc raws = acc @ convert_loop f now i [] raws"
proof (induction raws arbitrary: i acc)
  case Nil
  show ?case by simp
next
  case (Cons raw raws)
  show ?case
  proof (cases "convert_github_notification github_service_name f (now i) raw")
    case None
    then show ?thesis using Cons.IH [of "Suc i" acc] by simp
  next
    case (Some n)
    then show ?thesis
      using Cons.IH [of "Suc i" "acc @ [n]"] Cons.IH [of "Suc i" "[n]"] by simp
  qed
qed

lemma convert_loop_append:
  "convert_loop f now i acc (xs @ ys)
     = convert_loop f now (i + length xs) (convert_loop f now i acc xs) ys"
  by (induction xs arbitrary: i acc) (simp_all split: option.splits)

lemma convert_loop_map_filter:
  "convert_loop f now i [] raws =
     List.map_filter (\<lambda>(j, raw). convert_github_notification github_service_name f (now j) raw)
       (enumerate i raws)"
proof (induction raws arbitrary: i)
  case Nil
  show ?case by (simp add: List.map_filter_simps)
next
  case (Cons raw raws)
  show ?case
  proof (cases "convert_github_notification github_service_name f (now i) raw")
    case None
    then show ?thesis using Cons.IH [of "Suc i"] by (simp add: List.map_filter_simps)
  next
    case (Some n)
    then show ?thesis
      using Cons.IH [of "Suc i"] convert_loop_acc [of f now "Suc i" "[n]" raws]
      by (simp add: List.map_filter_simps)
  qed
qed

text \<open>What the conversion raises, and two kinds of items on which it does.\<close>

lemma try_bind_Inl: "try_bind r f = Inl e \<Longrightarrow> r = Inl e \<or> (\<exists>v. r = Inr v \<and> f v = Inl e)"
  by (cases r) (simp_all add: try_bind_def)

lemma py_get_raises: "py_get v key dflt = Inl e \<Longrightarrow> e = AttributeError"
  by (cases v) simp_all

lemma str_methods_raises: "str_methods v = Inl e \<Longrightarrow> e = AttributeError"
  by (cases v) simp_all

lemma convert_body_raises:
  "convert_body name f now raw = Inl e \<Longrightarrow> e = AttributeError"
  unfolding convert_body_def
  by (auto dest!: try_bind_Inl dest: py_get_raises str_methods_raises)

lemma convert_not_a_dict:
  "(\<forall>items. raw \<noteq> JObj items) \<Longrightarrow> convert_github_notification name f now raw = None"
  by (cases raw) (simp_all add: convert_github_notification_def convert_body_def try_bind_def)

lemma convert_reason_not_a_string:
  "map_of items ''reason'' = Some v \<Longrightarrow> (\<forall>s. v \<noteq> JStr s)
     \<Longrightarrow> convert_github_notification name f now (JObj items) = None"
  by (cases v)
     (auto simp: convert_github_notification_def convert_body_def try_bind_def
       split: sum.splits option.splits)

subsection \<open>The concrete polls, evaluated\<close>

lemma fresh_xzy_ok: "manager_ok fresh_xzy"
  by (simp add: manager_ok_def fresh_xzy_def svc_x_def svc_y_def svc_z_def)

lemma fresh_xzy_built:
  "add_service (add_service (add_service init_manager svc_x) svc_z) svc_y = fresh_xzy"
  by (simp add: add_service_def init_manager_def fresh_xzy_def svc_x_def svc_y_def svc_z_def)

lemma poll_raise_all:
  "fst (get_all_notifications poll_raise fresh_xzy) = batch_x @ batch_y"
  by (simp add: get_all_notifications_def fresh_xzy_def get_all_step_def get_all_try_def poll_raise_def
      svc_x_def svc_y_def svc_z_def batch_x_def batch_y_def)

lemma fresh_xy_without: "with_services fresh_xzy [svc_x, svc_y] = fresh_xy"
  by (simp add: with_services_def fresh_xzy_def fresh_xy_def)

lemma fresh_xzy_services: "services fresh_xzy = [svc_x] @ svc_z # [svc_y]"
  by (simp add: fresh_xzy_def)

lemma poll_raise_new:
  "get_new_notifications poll_raise fresh_xzy =
     ([notif ''X'' ''1'' ''a'', notif ''X'' ''2'' ''b'', notif ''Y'' ''1'' ''d''],
      polled_xzy)"
  by (simp add: get_new_notifications_def fresh_xzy_def polled_xzy_def get_new_step_def get_new_try_def
      poll_raise_def svc_x_def svc_y_def svc_z_def batch_x_def batch_y_def notif_def insert_commute)

lemma poll_none_all:
  "fst (get_all_notifications poll_none fresh_xzy) = batch_x @ batch_y"
  by (simp add: get_all_notifications_def fresh_xzy_def get_all_step_def get_all_try_def poll_none_def
      svc_x_def svc_y_def svc_z_def batch_x_def batch_y_def)

lemma poll_none_new:
  "get_new_notifications poll_none fresh_xzy =
     ([notif ''X'' ''1'' ''a'', notif ''X'' ''2'' ''b'', notif ''Y'' ''1'' ''d''],
      polled_xzy)"
  by (simp add: get_new_notifications_def fresh_xzy_def polled_xzy_def get_new_step_def get_new_try_def
      poll_none_def svc_x_def svc_y_def svc_z_def batch_x_def batch_y_def notif_def insert_commute)

lemma poll_raise_z: "poll_raise svc_z = Raises (OtherException ''timeout'')"
  by (simp add: poll_raise_def svc_z_def)

lemma poll_none_z: "poll_none svc_z = Returns None"
  by (simp add: poll_none_def svc_z_def)

lemma polled_x_services: "services polled_x = [] @ svc_x # []"
  by (simp add: polled_x_def)

lemma polled_x_covered: "covered poll_raise (seen_notifications polled_x) svc_x"
  by (simp add: covered_def poll_raise_def polled_x_def svc_x_def batch_x_def notif_def)

lemma poll_raise_sources: "sources_ok poll_raise (services fresh_xzy)"
  by (simp add: sources_ok_def poll_raise_def fresh_xzy_def svc_x_def svc_y_def svc_z_def
      batch_x_def batch_y_def notif_def)

lemma poll_raise_baseline:
  "mark_notifications_as_seen fresh_xzy (batch_x @ batch_y) = polled_xzy"
  by (simp add: mark_notifications_as_seen_def fresh_xzy_def polled_xzy_def mark_one_def
      batch_x_def batch_y_def notif_def insert_commute)

lemma batch_x_news: "news {} batch_x = [notif ''X'' ''1'' ''a'', notif ''X'' ''2'' ''b'']"
  by (simp add: news_def batch_x_def notif_def)


lemma batch_y_first: "find (\<lambda>x. id_n x = ''1'') batch_y = Some (notif ''Y'' ''1'' ''d'')"
  by (simp add: batch_y_def notif_def)

lemma batch_x_ids: "id_n ` set batch_x = {''1'', ''2''}"
  by (auto simp: batch_x_def notif_def)

lemma raw_bad_raises:
  "convert_body github_service_name no_parse (clock (length [raw_ok1])) raw_bad = Inl AttributeError"
  by (simp add: convert_body_def raw_bad_def try_bind_def)

lemma raw_ok1_converts:
  "convert_loop no_parse clock 0 [] [raw_ok1] =
     [\<lparr>id_n = JStr ''1'', title = JStr ''Fix the build'', source = ''GitHub'',
       type_n = ''Mention'', timestamp = 100, repository = Some (JStr ''Unknown Repo''),
       url = None, reason = Some ''mention'', raw_data = Some raw_ok1\<rparr>]"
  by code_simp

lemma raw_ok3_converts:
  "convert_loop no_parse clock (Suc (length [raw_ok1])) [] [raw_ok3] =
     [\<lparr>id_n = JStr ''3'', title = JStr ''No Title'', source = ''GitHub'',
       type_n = ''Custom_Reason'', timestamp = 102, repository = Some (JStr ''Unknown Repo''),
       url = None, reason = Some ''custom_reason'', raw_data = Some raw_ok3\<rparr>]"
  by code_simp

lemma token_configured: "github_is_configured \<lparr>token = Some ''t0k''\<rparr>"
  by code_simp

section \<open>Properties of the manager and of the GitHub provider\<close>

subsection \<open>C1: what is seen is not new\<close>

text \<open>
  C1. A registered provider all of whose ids are in the seen set of its name (\<open>covered\<close>)
  adds nothing to the result of \<^verbatim>\<open>get_new_notifications\<close>: its step leaves the result
  and the seen sets as they are, and the call returns what it returns without that
  provider. When this holds of every provider, the call returns the empty list and
  changes nothing. Both ways of getting there are covered. A second
  \<^verbatim>\<open>get_new_notifications\<close> right after a first one, over the same upstream items,
  returns the empty list. And so does \<^verbatim>\<open>get_new_notifications\<close> after
  \<^verbatim>\<open>mark_notifications_as_seen\<close> of the result of \<^verbatim>\<open>get_all_notifications\<close>, provided
  the notifications carry their provider's name as source, which is what marking looks at.
\<close>

theorem seen_items_not_new:
  "(services m = pre @ s # post \<longrightarrow> covered w (seen_notifications m) s \<longrightarrow>
       get_new_step w (acc, seen_notifications m) s = (acc, seen_notifications m)
       \<and> fst (get_new_notifications w m)
           = fst (get_new_notifications w (with_services m (pre @ post)))
       \<and> seen_notifications (snd (get_new_notifications w m))
           = seen_notifications (snd (get_new_notifications w (with_services m (pre @ post)))))
   \<and> (list_all (covered w (seen_notifications m)) (services m) \<longrightarrow>
         get_new_notifications w m = ([], m))
   \<and> get_new_notifications w (snd (get_new_notifications w m))
       = ([], snd (get_new_notifications w m))
   \<and> (sources_ok w (services m) \<longrightarrow>
         get_new_notifications w
             (mark_notifications_as_seen m (fst (get_all_notifications w m)))
           = ([], mark_notifications_as_seen m (fst (get_all_notifications w m))))"
proof (intro conjI impI)
  assume sv: "services m = pre @ s # post" and c: "covered w (seen_notifications m) s"
  show "get_new_step w (acc, seen_notifications m) s = (acc, seen_notifications m)"
    using c by (rule covered_step_id)
  have r: "get_new_loop w ([], seen_notifications m) (pre @ s # post)
         = get_new_loop w ([], seen_notifications m) (pre @ post)"
    using c by (rule get_new_loop_remove)
  show "fst (get_new_notifications w m)
           = fst (get_new_notifications w (with_services m (pre @ post)))"
    using r by (simp add: get_new_notifications_eq with_services_def sv)
  show "seen_notifications (snd (get_new_notifications w m))
           = seen_notifications (snd (get_new_notifications w (with_services m (pre @ post))))"
    using r by (simp add: get_new_notifications_eq with_services_def sv)
next
  assume "list_all (covered w (seen_notifications m)) (services m)"
  then show "get_new_notifications w m = ([], m)"
    by (simp add: get_new_notifications_eq covered_loop_id)
next
  let ?m1 = "snd (get_new_notifications w m)"
  have "list_all (covered w (seen_notifications ?m1)) (services ?m1)"
    using covered_after_loop [of _ "services m" w "[]" "seen_notifications m"]
    by (simp add: get_new_notifications_eq list_all_iff)
  then show "get_new_notifications w ?m1 = ([], ?m1)"
    by (simp add: get_new_notifications_eq covered_loop_id)
next
  assume ok: "sources_ok w (services m)"
  let ?m1 = "mark_notifications_as_seen m (fst (get_all_notifications w m))"
  have "list_all (covered w (seen_notifications ?m1)) (services ?m1)"
    using covered_after_baseline [OF ok, of _ "seen_notifications m"]
    by (simp add: mark_notifications_as_seen_def get_all_notifications_def list_all_iff)
  then show "get_new_notifications w ?m1 = ([], ?m1)"
    by (simp add: get_new_notifications_eq covered_loop_id)
qed

text \<open>
  The provider \<open>X\<close> after its ids 1 and 2 were seen; and the providers \<open>X\<close>, \<open>Z\<close>,
  \<open>Y\<close> polled twice, and polled after the baseline was marked.
\<close>

theorem seen_items_not_new_witness:
  "services polled_x = [] @ svc_x # []
   \<and> covered poll_raise (seen_notifications polled_x) svc_x
   \<and> list_all (covered poll_raise (seen_notifications polled_x)) (services polled_x)
   \<and> sources_ok poll_raise (services fresh_xzy)
   \<and> get_new_step poll_raise (batch_y, seen_notifications polled_x) svc_x
       = (batch_y, seen_notifications polled_x)
   \<and> fst (get_new_notifications poll_raise (with_services polled_x [])) = []
   \<and> get_new_notifications poll_raise polled_x = ([], polled_x)
   \<and> snd (get_new_notifications poll_raise fresh_xzy) = polled_xzy
   \<and> get_new_notifications poll_raise polled_xzy = ([], polled_xzy)
   \<and> mark_notifications_as_seen fresh_xzy (fst (get_all_notifications poll_raise fresh_xzy))
       = polled_xzy"
proof -
  have l: "list_all (covered poll_raise (seen_notifications polled_x)) (services polled_x)"
    using polled_x_covered by (simp add: polled_x_def)
  note a = seen_items_not_new [where m = polled_x and pre = "[]" and s = svc_x and post = "[]"
      and w = poll_raise and acc = batch_y]
  note b = seen_items_not_new [where m = fresh_xzy and w = poll_raise]
  have b1: "snd (get_new_notifications poll_raise fresh_xzy) = polled_xzy"
    by (simp add: poll_raise_new)
  have b2: "mark_notifications_as_seen fresh_xzy (fst (get_all_notifications poll_raise fresh_xzy))
       = polled_xzy"
    by (simp add: poll_raise_all poll_raise_baseline)
  from a polled_x_services polled_x_covered l
  have a': "get_new_step poll_raise (batch_y, seen_notifications polled_x) svc_x
       = (batch_y, seen_notifications polled_x)
     \<and> fst (get_new_notifications poll_raise (with_services polled_x [])) = []
     \<and> get_new_notifications poll_raise polled_x = ([], polled_x)"
    by (metis append_Nil fst_conv)
  from b b1 have b': "get_new_notifications poll_raise polled_xzy = ([], polled_xzy)"
    by simp
  from a' b' b1 b2 polled_x_services polled_x_covered l poll_raise_sources
  show ?thesis by blast
qed

subsection \<open>C2: the same id from two providers\<close>




subsection \<open>C3: a provider that raises\<close>

text \<open>
  C3. For a registered provider whose fetch raises an exception, the \<^verbatim>\<open>try\<close> of the
  loop body raises it and the handler absorbs it: the provider adds nothing to the result
  of \<^verbatim>\<open>get_all_notifications\<close> or \<^verbatim>\<open>get_new_notifications\<close> and changes no seen set.
  Both calls return, and what they return, items and seen sets, is what they return when
  that provider is not registered, and what they return when it returns \<^verbatim>\<open>[]\<close>. The
  step of a provider that returns a list appends the list, respectively its new items.
  The other providers' items are in the result: \<^verbatim>\<open>get_all_notifications\<close> returns the
  batches of the other providers, one after the other in the order of registration, so
  every notification that another provider returns is in it;
  \<^verbatim>\<open>get_new_notifications\<close> returns, when the other providers have different names, for
  each of them in that order the notifications of its batch that are new to its seen
  set; in any case the first notification with an unseen id in the batch of another
  provider, the only one of its name, is in the result; and every id that another
  provider returns and that its seen set did not have is the id of a notification in the
  result.
\<close>

theorem provider_fault_isolated:
  assumes "services m = pre @ s # post" and "w s = Raises e"
  shows "get_all_try w acc s = Inl e
       \<and> get_all_step w acc s = acc
       \<and> get_new_try w st s = Inl e
       \<and> get_new_step w st s = st
       \<and> fst (get_all_notifications w m)
           = fst (get_all_notifications w (with_services m (pre @ post)))
       \<and> fst (get_new_notifications w m)
           = fst (get_new_notifications w (with_services m (pre @ post)))
       \<and> seen_notifications (snd (get_new_notifications w m))
           = seen_notifications (snd (get_new_notifications w (with_services m (pre @ post))))
       \<and> get_all_notifications (w(s := Returns (Some []))) m = get_all_notifications w m
       \<and> get_new_notifications (w(s := Returns (Some []))) m = get_new_notifications w m
       \<and> (w t = Returns (Some ns) \<longrightarrow> get_all_step w acc t = acc @ ns)
       \<and> (w t = Returns (Some ns) \<and> map_of seen (service_name t) = Some S \<longrightarrow>
            get_new_step w (acc, seen) t
              = (acc @ news S ns, AList.update (service_name t) (S \<union> id_n ` set ns) seen))
       \<and> fst (get_all_notifications w m) = concat (map (batch w) (pre @ post))
       \<and> (t \<in> set (pre @ post) \<and> w t = Returns (Some ns) \<longrightarrow>
            set ns \<subseteq> set (fst (get_all_notifications w m)))
       \<and> (distinct (map service_name (pre @ post)) \<longrightarrow>
            fst (get_new_notifications w m)
              = concat (map (contribution w (seen_notifications m)) (pre @ post)))
       \<and> (t \<in> set (pre @ post)
            \<and> (\<forall>u \<in> set (pre @ post). service_name u = service_name t \<longrightarrow> u = t)
            \<and> w t = Returns (Some ns) \<and> seen_set m (service_name t) = Some S
            \<and> find (\<lambda>x. id_n x = i) ns = Some n \<and> i \<notin> S \<longrightarrow>
            n \<in> set (fst (get_new_notifications w m)))
       \<and> (t \<in> set (pre @ post) \<and> w t = Returns (Some ns)
            \<and> seen_set m (service_name t) = Some S \<longrightarrow>
            id_n ` set ns - S \<subseteq> id_n ` set (fst (get_new_notifications w m)))"
proof -
  have q: "silent w s"
    using assms(2) by (simp add: silent_def)
  have tr: "get_all_try w acc s = Inl e" "get_new_try w st s = Inl e"
    using assms(2) by (simp_all add: get_all_try_def get_new_try_def)
  have b: "batch w s = []"
    using assms(2) by (simp add: batch_def)
  have all: "fst (get_all_notifications w m) = concat (map (batch w) (pre @ post))"
    by (simp add: get_all_notifications_def get_all_loop_concat assms(1) b)
  have mem: "set ns \<subseteq> set (fst (get_all_notifications w m))"
    if "t \<in> set (pre @ post)" and "w t = Returns (Some ns)"
  proof -
    from that(2) have "batch w t = ns" by (simp add: batch_def)
    with that(1) show ?thesis unfolding all by auto
  qed
  have c: "covered w (seen_notifications m) s"
    using q by (rule silent_covered)
  have r: "get_new_loop w ([], seen_notifications m) (pre @ s # post)
         = get_new_loop w ([], seen_notifications m) (pre @ post)"
    using c by (rule get_new_loop_remove)
  have new: "fst (get_new_notifications w m)
      = fst (get_new_loop w ([], seen_notifications m) (pre @ post))"
    using r by (simp add: get_new_notifications_eq assms(1))
  have cat: "fst (get_new_notifications w m)
      = concat (map (contribution w (seen_notifications m)) (pre @ post))"
    if "distinct (map service_name (pre @ post))"
    using get_new_loop_concat [OF that, of w "[]" "seen_notifications m"] new by simp
  have first: "n \<in> set (fst (get_new_notifications w m))"
    if t: "t \<in> set (pre @ post)"
      and only: "\<forall>u \<in> set (pre @ post). service_name u = service_name t \<longrightarrow> u = t"
      and rt: "w t = Returns (Some ns)"
      and S: "seen_set m (service_name t) = Some S"
      and f: "find (\<lambda>x. id_n x = i) ns = Some n" and i: "i \<notin> S"
  proof -
    from S have g: "map_of (seen_notifications m) (service_name t) = Some S"
      by (simp add: seen_set_def)
    have "set (news S ns) \<subseteq> set (fst (get_new_loop w ([], seen_notifications m) (pre @ post)))"
      using first_served [where w = w and s = t and acc = "[]", OF t only rt g] .
    moreover have "n \<in> set (news S ns)"
      using f i by (rule first_in_news)
    ultimately show ?thesis using new by auto
  qed
  have ids: "id_n ` set ns - S \<subseteq> id_n ` set (fst (get_new_notifications w m))"
    if t: "t \<in> set (pre @ post)" and rt: "w t = Returns (Some ns)"
      and S: "seen_set m (service_name t) = Some S"
  proof -
    from S have g: "map_of (seen_notifications m) (service_name t) = Some S"
      by (simp add: seen_set_def)
    show ?thesis
      using unseen_ids_in_result [where w = w and t = t, OF t rt g] new by simp
  qed
  have h1: "get_all_step w acc t = acc @ ns" if "w t = Returns (Some ns)"
    using that by (cases "ns = []") (simp_all add: get_all_step_def get_all_try_def)
  have h2: "get_new_step w (acc, seen) t
      = (acc @ news S ns, AList.update (service_name t) (S \<union> id_n ` set ns) seen)"
    if "w t = Returns (Some ns)" and "map_of seen (service_name t) = Some S"
    using that
    by (cases "ns = []")
       (simp_all add: get_new_step_def get_new_try_def news_Nil AList.update_triv
         filter_new_eq)
  from tr all mem cat first ids h1 h2 show ?thesis
    using silent_get_all_step [OF q, of acc] silent_get_new_step [OF q, of st]
      silent_removed [OF q assms(1)] silent_as_empty [OF q, of m]
    by simp
qed

text \<open>
  The providers \<open>X\<close>, \<open>Z\<close>, \<open>Y\<close>, of which \<open>Z\<close> raises: the results are those of
  the manager with \<open>X\<close> and \<open>Y\<close> only, and they have the items of \<open>X\<close> and of \<open>Y\<close>.
\<close>

theorem provider_fault_isolated_witness:
  "services fresh_xzy = [svc_x] @ svc_z # [svc_y]
   \<and> poll_raise svc_z = Raises (OtherException ''timeout'')
   \<and> get_all_try poll_raise batch_x svc_z = Inl (OtherException ''timeout'')
   \<and> get_all_step poll_raise batch_x svc_z = batch_x
   \<and> get_new_step poll_raise (batch_x, seen_notifications fresh_xzy) svc_z
       = (batch_x, seen_notifications fresh_xzy)
   \<and> fst (get_all_notifications poll_raise fresh_xy) = batch_x @ batch_y
   \<and> fst (get_new_notifications poll_raise fresh_xy)
       = [notif ''X'' ''1'' ''a'', notif ''X'' ''2'' ''b'', notif ''Y'' ''1'' ''d'']
   \<and> seen_notifications (snd (get_new_notifications poll_raise fresh_xy))
       = [(''X'', {''1'', ''2''}), (''Z'', {}), (''Y'', {''1''})]
   \<and> get_all_notifications (poll_raise(svc_z := Returns (Some []))) fresh_xzy
       = (batch_x @ batch_y, fresh_xzy)
   \<and> svc_y \<in> set ([svc_x] @ [svc_y])
   \<and> poll_raise svc_y = Returns (Some batch_y)
   \<and> map_of (seen_notifications fresh_xzy) (service_name svc_y) = Some {}
   \<and> get_all_step poll_raise batch_x svc_y = batch_x @ batch_y
   \<and> get_new_step poll_raise (batch_x, seen_notifications fresh_xzy) svc_y
       = (batch_x @ batch_y, [(''X'', {}), (''Z'', {}), (''Y'', {''1''})])
   \<and> distinct (map service_name ([svc_x] @ [svc_y]))
   \<and> seen_set fresh_xzy (service_name svc_y) = Some {}
   \<and> find (\<lambda>x. id_n x = ''1'') batch_y = Some (notif ''Y'' ''1'' ''d'')
   \<and> concat (map (batch poll_raise) ([svc_x] @ [svc_y])) = batch_x @ batch_y
   \<and> fst (get_all_notifications poll_raise fresh_xzy) = batch_x @ batch_y
   \<and> set batch_y \<subseteq> set (fst (get_all_notifications poll_raise fresh_xzy))
   \<and> concat (map (contribution poll_raise (seen_notifications fresh_xzy)) ([svc_x] @ [svc_y]))
       = [notif ''X'' ''1'' ''a'', notif ''X'' ''2'' ''b'', notif ''Y'' ''1'' ''d'']
   \<and> fst (get_new_notifications poll_raise fresh_xzy)
       = [notif ''X'' ''1'' ''a'', notif ''X'' ''2'' ''b'', notif ''Y'' ''1'' ''d'']
   \<and> notif ''Y'' ''1'' ''d'' \<in> set (fst (get_new_notifications poll_raise fresh_xzy))
   \<and> id_n ` set batch_y - {}
       \<subseteq> id_n ` set (fst (get_new_notifications poll_raise fresh_xzy))"
proof -
  note t = provider_fault_isolated [where m = fresh_xzy and pre = "[svc_x]" and s = svc_z
      and post = "[svc_y]" and w = poll_raise and e = "OtherException ''timeout''"
      and acc = batch_x and st = "(batch_x, seen_notifications fresh_xzy)"
      and t = svc_y and ns = batch_y and S = "{}" and i = "''1''"
      and n = "notif ''Y'' ''1'' ''d''" and seen = "seen_notifications fresh_xzy",
      OF fresh_xzy_services poll_raise_z]
  have a: "get_all_notifications poll_raise fresh_xzy = (batch_x @ batch_y, fresh_xzy)"
    using poll_raise_all by (simp add: get_all_notifications_def)
  have y: "svc_y \<in> set ([svc_x] @ [svc_y])"
    by simp
  have ry: "poll_raise svc_y = Returns (Some batch_y)"
    by (simp add: poll_raise_def svc_y_def)
  have rx: "poll_raise svc_x = Returns (Some batch_x)"
    by (simp add: poll_raise_def svc_x_def)
  have d: "distinct (map service_name ([svc_x] @ [svc_y]))"
    by (simp add: svc_x_def svc_y_def)
  have o: "\<forall>u \<in> set ([svc_x] @ [svc_y]). service_name u = service_name svc_y \<longrightarrow> u = svc_y"
    by (simp add: svc_x_def svc_y_def)
  have S: "seen_set fresh_xzy (service_name svc_y) = Some {}"
    by (simp add: seen_set_def fresh_xzy_def svc_y_def)
  have b: "concat (map (batch poll_raise) ([svc_x] @ [svc_y])) = batch_x @ batch_y"
    by (simp add: batch_def rx ry)
  from t y ry d o S batch_y_first
  have c1: "fst (get_all_notifications poll_raise fresh_xzy)
        = concat (map (batch poll_raise) ([svc_x] @ [svc_y]))"
    and c2: "set batch_y \<subseteq> set (fst (get_all_notifications poll_raise fresh_xzy))"
    and c3: "fst (get_new_notifications poll_raise fresh_xzy)
        = concat (map (contribution poll_raise (seen_notifications fresh_xzy)) ([svc_x] @ [svc_y]))"
    and c4: "notif ''Y'' ''1'' ''d'' \<in> set (fst (get_new_notifications poll_raise fresh_xzy))"
    and c5: "id_n ` set batch_y - {}
       \<subseteq> id_n ` set (fst (get_new_notifications poll_raise fresh_xzy))"
    by blast+
  have My: "map_of (seen_notifications fresh_xzy) (service_name svc_y) = Some {}"
    by (simp add: fresh_xzy_def svc_y_def)
  from t ry My
  have c6: "get_all_step poll_raise batch_x svc_y = batch_x @ batch_y"
    and c7: "get_new_step poll_raise (batch_x, seen_notifications fresh_xzy) svc_y
       = (batch_x @ news {} batch_y,
          AList.update (service_name svc_y) ({} \<union> id_n ` set batch_y)
            (seen_notifications fresh_xzy))"
    by blast+
  have e7: "(batch_x @ news {} batch_y,
          AList.update (service_name svc_y) ({} \<union> id_n ` set batch_y)
            (seen_notifications fresh_xzy))
       = (batch_x @ batch_y, [(''X'', {}), (''Z'', {}), (''Y'', {''1''})])"
    by (simp add: news_def batch_y_def notif_def fresh_xzy_def svc_y_def)
  have n: "fst (get_new_notifications poll_raise fresh_xzy)
       = [notif ''X'' ''1'' ''a'', notif ''X'' ''2'' ''b'', notif ''Y'' ''1'' ''d'']"
    by (simp add: poll_raise_new)
  have old: "get_all_try poll_raise batch_x svc_z = Inl (OtherException ''timeout'')
   \<and> get_all_step poll_raise batch_x svc_z = batch_x
   \<and> get_new_step poll_raise (batch_x, seen_notifications fresh_xzy) svc_z
       = (batch_x, seen_notifications fresh_xzy)
   \<and> fst (get_all_notifications poll_raise fresh_xy) = batch_x @ batch_y
   \<and> fst (get_new_notifications poll_raise fresh_xy)
       = [notif ''X'' ''1'' ''a'', notif ''X'' ''2'' ''b'', notif ''Y'' ''1'' ''d'']
   \<and> seen_notifications (snd (get_new_notifications poll_raise fresh_xy))
       = [(''X'', {''1'', ''2''}), (''Z'', {}), (''Y'', {''1''})]
   \<and> get_all_notifications (poll_raise(svc_z := Returns (Some []))) fresh_xzy
       = (batch_x @ batch_y, fresh_xzy)"
    using t fresh_xzy_services poll_raise_z poll_raise_all poll_raise_new a
    by (simp add: fresh_xy_without polled_xzy_def)
  from old fresh_xzy_services poll_raise_z y ry d S batch_y_first b c1 [unfolded b] c2
    c3 [symmetric, unfolded n] n c4 c5 My c6 c7 [THEN trans, OF e7]
  show ?thesis by blast
qed

subsection \<open>C4: the type of an unmapped reason\<close>

text \<open>
  C4. For an ASCII reason that is not a key of the lookup table after lower-casing, the
  derived type is \<^verbatim>\<open>reason.title()\<close>: the string of the same length in which every
  letter that begins the string or follows a character that is no letter is upper-cased,
  every letter that follows a letter is lower-cased, and every other character is kept,
  so that the type has the lower-case form of the reason. An underscore is kept: the
  reason \<^verbatim>\<open>custom_reason\<close> gets the type \<^verbatim>\<open>Custom_Reason\<close>.
\<close>

theorem unmapped_reason_title:
  "(list_all is_ascii r \<and> map_of type_mapping (str_lower r) = None \<longrightarrow>
      get_notification_type r = str_title r
      \<and> get_notification_type r = map (title_rule r) [0..<length r]
      \<and> length (get_notification_type r) = length r
      \<and> str_lower (get_notification_type r) = str_lower r)
   \<and> get_notification_type ''custom_reason'' = ''Custom_Reason''"
proof -
  have e: "get_notification_type ''custom_reason'' = ''Custom_Reason''"
    by code_simp
  have g: "get_notification_type r = str_title r"
    if "map_of type_mapping (str_lower r) = None"
    using that by (simp add: get_notification_type_def)
  have t: "str_title r = map (title_rule r) [0..<length r]"
    by (rule str_title_rule)
  have n: "length (str_title r) = length r"
    by (simp add: str_title_def length_title_loop)
  have l: "str_lower (str_title r) = str_lower r"
    by (simp add: str_title_def str_lower_title_loop)
  from e g t n l show ?thesis by metis
qed

text \<open>
  The same at the reason \<^verbatim>\<open>dEPLOY_failed 2x\<close>, which the table does not have: letters
  are upper-cased after the start, the underscore, the space and the digit, and
  lower-cased elsewhere.
\<close>

theorem unmapped_reason_title_witness:
  "list_all is_ascii ''dEPLOY_failed 2x''
   \<and> map_of type_mapping (str_lower ''dEPLOY_failed 2x'') = None
   \<and> get_notification_type ''dEPLOY_failed 2x'' = ''Deploy_Failed 2X''
   \<and> map (title_rule ''dEPLOY_failed 2x'') [0..<length ''dEPLOY_failed 2x'']
       = ''Deploy_Failed 2X''
   \<and> length (get_notification_type ''dEPLOY_failed 2x'') = 16
   \<and> str_lower (get_notification_type ''dEPLOY_failed 2x'') = ''deploy_failed 2x''"
proof -
  have a: "list_all is_ascii ''dEPLOY_failed 2x''"
    by code_simp
  have h: "map_of type_mapping (str_lower ''dEPLOY_failed 2x'') = None"
    by code_simp
  have t: "map (title_rule ''dEPLOY_failed 2x'') [0..<length ''dEPLOY_failed 2x'']
      = ''Deploy_Failed 2X''"
    by code_simp
  have l: "str_lower ''dEPLOY_failed 2x'' = ''deploy_failed 2x''"
    by code_simp
  have n: "length ''dEPLOY_failed 2x'' = 16"
    by simp
  from unmapped_reason_title [of "''dEPLOY_failed 2x''"] a h
  have c1: "get_notification_type ''dEPLOY_failed 2x''
      = map (title_rule ''dEPLOY_failed 2x'') [0..<length ''dEPLOY_failed 2x'']"
    and c2: "str_lower (get_notification_type ''dEPLOY_failed 2x'')
      = str_lower ''dEPLOY_failed 2x''"
    and c3: "length (get_notification_type ''dEPLOY_failed 2x'') = length ''dEPLOY_failed 2x''"
    by blast+
  have d: "get_notification_type ''dEPLOY_failed 2x'' = ''Deploy_Failed 2X''"
    by code_simp
  from a h d c1 [THEN trans, OF t] t c2 [THEN trans, OF l] c3 [THEN trans, OF n]
  show ?thesis by blast
qed

text \<open>
  The reason \<^verbatim>\<open>custom_reason\<close> is not in the table, and its type is not
  \<^verbatim>\<open>Custom Reason\<close> with a space.
\<close>

theorem custom_reason_counterexample:
  "map_of type_mapping (str_lower ''custom_reason'') = None
   \<and> get_notification_type ''custom_reason'' \<noteq> ''Custom Reason''"
  by code_simp

subsection \<open>C5: a raw item that cannot be converted\<close>

text \<open>
  C5. The fetch converts every raw item of the batch on its own, in order, and returns
  the notifications of those whose conversion succeeded. An item whose conversion raises
  is the only one dropped: the result is what the items before it give, followed by what
  the items after it give. An item that converts is in the result at its place. With a
  token, and a response that is a list, the fetch returns this list of notifications.
\<close>

theorem failed_item_dropped:
  "convert_loop f now i acc raws
     = acc @ List.map_filter
         (\<lambda>(j, raw). convert_github_notification github_service_name f (now j) raw)
         (enumerate i raws)
   \<and> (convert_body github_service_name f (now (length pre)) bad = Inl e \<longrightarrow>
        convert_loop f now 0 [] (pre @ bad # post)
          = convert_loop f now 0 [] pre @ convert_loop f now (Suc (length pre)) [] post)
   \<and> (convert_body github_service_name f (now (length pre)) good = Inr n \<longrightarrow>
        convert_loop f now 0 [] (pre @ good # post)
          = convert_loop f now 0 [] pre @ n # convert_loop f now (Suc (length pre)) [] post)
   \<and> (github_is_configured g \<longrightarrow>
        github_get_notifications g (Response (JArr raws)) f now
          = Returns (Some (convert_loop f now 0 [] raws)))"
proof (intro conjI impI)
  show "convert_loop f now i acc raws
     = acc @ List.map_filter
         (\<lambda>(j, raw). convert_github_notification github_service_name f (now j) raw)
         (enumerate i raws)"
    using convert_loop_acc [of f now i acc raws] by (simp add: convert_loop_map_filter)
next
  assume "convert_body github_service_name f (now (length pre)) bad = Inl e"
  then have "convert_github_notification github_service_name f (now (length pre)) bad = None"
    by (simp add: convert_github_notification_def)
  then show "convert_loop f now 0 [] (pre @ bad # post)
          = convert_loop f now 0 [] pre @ convert_loop f now (Suc (length pre)) [] post"
    using convert_loop_acc [of f now "Suc (length pre)" "convert_loop f now 0 [] pre" post]
    by (simp add: convert_loop_append)
next
  assume "convert_body github_service_name f (now (length pre)) good = Inr n"
  then have "convert_github_notification github_service_name f (now (length pre)) good = Some n"
    by (simp add: convert_github_notification_def)
  then show "convert_loop f now 0 [] (pre @ good # post)
          = convert_loop f now 0 [] pre @ n # convert_loop f now (Suc (length pre)) [] post"
    using convert_loop_acc [of f now "Suc (length pre)" "convert_loop f now 0 [] pre @ [n]" post]
    by (simp add: convert_loop_append)
next
  assume "github_is_configured g"
  then show "github_get_notifications g (Response (JArr raws)) f now
          = Returns (Some (convert_loop f now 0 [] raws))"
    by (simp add: github_get_notifications_def)
qed

text \<open>
  Three raw items of which the second has \<^verbatim>\<open>"subject": null\<close>, so that
  \<^verbatim>\<open>.get('title')\<close> on it raises: the fetch returns the first and the third.
\<close>

theorem failed_item_dropped_witness:
  "convert_body github_service_name no_parse (clock (length [raw_ok1])) raw_bad
     = Inl AttributeError
   \<and> github_is_configured \<lparr>token = Some ''t0k''\<rparr>
   \<and> convert_loop no_parse clock 0 [] ([raw_ok1] @ raw_bad # [raw_ok3])
       = convert_loop no_parse clock 0 [] [raw_ok1]
           @ convert_loop no_parse clock (Suc (length [raw_ok1])) [] [raw_ok3]
   \<and> github_get_notifications \<lparr>token = Some ''t0k''\<rparr>
         (Response (JArr ([raw_ok1] @ raw_bad # [raw_ok3]))) no_parse clock
       = Returns (Some
          [\<lparr>id_n = JStr ''1'', title = JStr ''Fix the build'', source = ''GitHub'',
            type_n = ''Mention'', timestamp = 100, repository = Some (JStr ''Unknown Repo''),
            url = None, reason = Some ''mention'', raw_data = Some raw_ok1\<rparr>,
           \<lparr>id_n = JStr ''3'', title = JStr ''No Title'', source = ''GitHub'',
            type_n = ''Custom_Reason'', timestamp = 102,
            repository = Some (JStr ''Unknown Repo''),
            url = None, reason = Some ''custom_reason'', raw_data = Some raw_ok3\<rparr>])"
proof -
  note t = failed_item_dropped [where f = no_parse and now = clock and pre = "[raw_ok1]"
      and bad = raw_bad and post = "[raw_ok3]" and e = AttributeError
      and g = "\<lparr>token = Some ''t0k''\<rparr>" and raws = "[raw_ok1] @ raw_bad # [raw_ok3]"]
  from t raw_bad_raises
  have d: "convert_loop no_parse clock 0 [] ([raw_ok1] @ raw_bad # [raw_ok3])
       = convert_loop no_parse clock 0 [] [raw_ok1]
           @ convert_loop no_parse clock (Suc (length [raw_ok1])) [] [raw_ok3]"
    by blast
  from t token_configured
  have g: "github_get_notifications \<lparr>token = Some ''t0k''\<rparr>
         (Response (JArr ([raw_ok1] @ raw_bad # [raw_ok3]))) no_parse clock
       = Returns (Some (convert_loop no_parse clock 0 [] ([raw_ok1] @ raw_bad # [raw_ok3])))"
    by blast
  from raw_bad_raises token_configured d g [unfolded d raw_ok1_converts raw_ok3_converts]
  show ?thesis by simp
qed

subsection \<open>C6: \<^verbatim>\<open>get_all_notifications\<close> and the seen sets\<close>

text \<open>
  C6. Whatever the manager's state and whatever the providers do, the manager after
  \<^verbatim>\<open>get_all_notifications\<close> is the manager before it: the dict of seen sets is the same,
  and so is the seen set of every name.
\<close>

theorem get_all_keeps_seen:
  "snd (get_all_notifications w m) = m
   \<and> seen_notifications (snd (get_all_notifications w m)) = seen_notifications m
   \<and> seen_set (snd (get_all_notifications w m)) name = seen_set m name"
  by (simp add: get_all_notifications_def)

text \<open>The providers \<open>X\<close>, \<open>Z\<close>, \<open>Y\<close>, of which \<open>Z\<close> raises, before any poll.\<close>

theorem get_all_keeps_seen_witness:
  "fst (get_all_notifications poll_raise fresh_xzy) = batch_x @ batch_y
   \<and> snd (get_all_notifications poll_raise fresh_xzy) = fresh_xzy
   \<and> seen_set (snd (get_all_notifications poll_raise fresh_xzy)) ''X'' = Some {}"
proof -
  have "seen_set fresh_xzy ''X'' = Some {}"
    by (simp add: seen_set_def fresh_xzy_def)
  with get_all_keeps_seen [of poll_raise fresh_xzy "''X''"] poll_raise_all show ?thesis
    by simp
qed

subsection \<open>C7: the seen sets only grow\<close>

text \<open>
  C7. \<^verbatim>\<open>get_all_notifications\<close>, \<^verbatim>\<open>get_new_notifications\<close> and
  \<^verbatim>\<open>mark_notifications_as_seen\<close> only ever add to the seen state: the seen set of every
  name after the call contains the seen set before it. So does \<^verbatim>\<open>add_service\<close> for
  every name but the one of the service it registers.
\<close>

theorem seen_only_grows:
  assumes "seen_set m name = Some S"
  shows "(\<exists>S'. seen_set (snd (get_all_notifications w m)) name = Some S' \<and> S \<subseteq> S')
       \<and> (\<exists>S'. seen_set (snd (get_new_notifications w m)) name = Some S' \<and> S \<subseteq> S')
       \<and> (\<exists>S'. seen_set (mark_notifications_as_seen m ns) name = Some S' \<and> S \<subseteq> S')
       \<and> ((is_configured s \<longrightarrow> service_name s \<noteq> name) \<longrightarrow>
            (\<exists>S'. seen_set (add_service m s) name = Some S' \<and> S \<subseteq> S'))"
proof (intro conjI impI)
  show "\<exists>S'. seen_set (snd (get_all_notifications w m)) name = Some S' \<and> S \<subseteq> S'"
    using assms by (simp add: get_all_notifications_def)
next
  show "\<exists>S'. seen_set (snd (get_new_notifications w m)) name = Some S' \<and> S \<subseteq> S'"
    using assms seen_le_get_new [of m w] unfolding seen_le_def seen_set_def by blast
next
  show "\<exists>S'. seen_set (mark_notifications_as_seen m ns) name = Some S' \<and> S \<subseteq> S'"
    using assms seen_le_mark_loop [of "seen_notifications m" ns]
    unfolding seen_le_def seen_set_def mark_notifications_as_seen_def by simp
next
  assume c: "is_configured s \<longrightarrow> service_name s \<noteq> name"
  show "\<exists>S'. seen_set (add_service m s) name = Some S' \<and> S \<subseteq> S'"
  proof (cases "is_configured s")
    case True
    with c have "name \<noteq> service_name s" by auto
    then show ?thesis using assms by (simp add: map_of_add_service_other)
  next
    case False
    then show ?thesis using assms by (simp add: add_service_def)
  qed
qed

text \<open>The four operations on a manager that has seen the ids 1 and 2 of \<open>X\<close>.\<close>

lemma polled_x_mark:
  "seen_set (mark_notifications_as_seen polled_x [notif ''X'' ''3'' ''e'']) ''X''
     = Some {''1'', ''2'', ''3''}"
  by (auto simp: mark_notifications_as_seen_def polled_x_def mark_one_def notif_def seen_set_def)

lemma polled_x_add_y:
  "seen_set (add_service polled_x svc_y) ''X'' = Some {''1'', ''2''}"
  by (simp add: add_service_def polled_x_def svc_y_def seen_set_def)

theorem seen_only_grows_witness:
  "seen_set polled_x ''X'' = Some {''1'', ''2''}
   \<and> service_name svc_y \<noteq> ''X''
   \<and> (\<exists>S'. seen_set (snd (get_all_notifications poll_raise polled_x)) ''X'' = Some S'
          \<and> {''1'', ''2''} \<subseteq> S')
   \<and> (\<exists>S'. seen_set (snd (get_new_notifications poll_raise polled_x)) ''X'' = Some S'
          \<and> {''1'', ''2''} \<subseteq> S')
   \<and> (\<exists>S'. seen_set (mark_notifications_as_seen polled_x [notif ''X'' ''3'' ''e'']) ''X'' = Some S'
          \<and> {''1'', ''2''} \<subseteq> S')
   \<and> (\<exists>S'. seen_set (add_service polled_x svc_y) ''X'' = Some S' \<and> {''1'', ''2''} \<subseteq> S')
   \<and> seen_set (mark_notifications_as_seen polled_x [notif ''X'' ''3'' ''e'']) ''X''
       = Some {''1'', ''2'', ''3''}
   \<and> seen_set (add_service polled_x svc_y) ''X'' = Some {''1'', ''2''}"
proof -
  have h: "seen_set polled_x ''X'' = Some {''1'', ''2''}"
    by (simp add: seen_set_def polled_x_def)
  have y: "service_name svc_y \<noteq> ''X''"
    by (simp add: svc_y_def)
  from seen_only_grows [OF h, of poll_raise "[notif ''X'' ''3'' ''e'']" svc_y] y h
    polled_x_mark polled_x_add_y
  show ?thesis by blast
qed

text \<open>
  As stated for \<^verbatim>\<open>add_service\<close> too, the claim fails: registering \<open>X\<close>, polling, and
  registering \<open>X\<close> again leaves the seen set of \<open>X\<close> empty.
\<close>

theorem add_service_again_counterexample:
  "is_configured svc_x
   \<and> snd (get_new_notifications poll_raise (add_service init_manager svc_x)) = polled_x
   \<and> seen_set polled_x ''X'' = Some {''1'', ''2''}
   \<and> seen_set (add_service polled_x svc_x) ''X'' = Some {}
   \<and> \<not> {''1'', ''2''} \<subseteq> ({} :: string set)"
  by (simp add: get_new_notifications_def add_service_def init_manager_def polled_x_def
      get_new_step_def get_new_try_def poll_raise_def svc_x_def batch_x_def notif_def seen_set_def
      insert_commute)

subsection \<open>C8: a provider that returns \<^verbatim>\<open>None\<close>\<close>

text \<open>
  C8. A registered provider whose \<^verbatim>\<open>get_notifications\<close> returns \<^verbatim>\<open>None\<close> adds nothing
  to the result of \<^verbatim>\<open>get_all_notifications\<close> or \<^verbatim>\<open>get_new_notifications\<close> and its step
  changes no seen set; both calls return, and what they return, items and seen sets, is
  what they return when that provider is not registered, and what they return when it
  returns \<^verbatim>\<open>[]\<close>. The GitHub provider returns \<^verbatim>\<open>None\<close> when the request raises a
  \<^verbatim>\<open>RequestException\<close> and when it has no token.
\<close>

theorem none_contributes_nothing:
  assumes "services m = pre @ s # post" and "w s = Returns None"
  shows "get_all_step w acc s = acc
       \<and> get_new_step w st s = st
       \<and> fst (get_all_notifications w m)
           = fst (get_all_notifications w (with_services m (pre @ post)))
       \<and> fst (get_new_notifications w m)
           = fst (get_new_notifications w (with_services m (pre @ post)))
       \<and> seen_notifications (snd (get_new_notifications w m))
           = seen_notifications (snd (get_new_notifications w (with_services m (pre @ post))))
       \<and> get_all_notifications (w(s := Returns (Some []))) m = get_all_notifications w m
       \<and> get_new_notifications (w(s := Returns (Some []))) m = get_new_notifications w m
       \<and> github_get_notifications g (RequestException msg) fromisoformat now = Returns None
       \<and> (\<not> github_is_configured g \<longrightarrow>
            github_get_notifications g http fromisoformat now = Returns None)"
proof -
  have q: "silent w s"
    using assms(2) by (simp add: silent_def)
  have "github_get_notifications g (RequestException msg) fromisoformat now = Returns None"
    by (simp add: github_get_notifications_def)
  moreover have "\<not> github_is_configured g \<longrightarrow>
      github_get_notifications g http fromisoformat now = Returns None"
    by (simp add: github_get_notifications_def)
  ultimately show ?thesis
    using silent_get_all_step [OF q, of acc] silent_get_new_step [OF q, of st]
      silent_removed [OF q assms(1)] silent_as_empty [OF q, of m]
    by simp
qed

text \<open>The same providers, where \<open>Z\<close> now returns \<^verbatim>\<open>None\<close>.\<close>

theorem none_contributes_nothing_witness:
  "services fresh_xzy = [svc_x] @ svc_z # [svc_y]
   \<and> poll_none svc_z = Returns None
   \<and> \<not> github_is_configured \<lparr>token = Some ''  ''\<rparr>
   \<and> get_all_step poll_none batch_x svc_z = batch_x
   \<and> get_new_step poll_none (batch_x, seen_notifications fresh_xzy) svc_z
       = (batch_x, seen_notifications fresh_xzy)
   \<and> fst (get_all_notifications poll_none fresh_xy) = batch_x @ batch_y
   \<and> fst (get_new_notifications poll_none fresh_xy)
       = [notif ''X'' ''1'' ''a'', notif ''X'' ''2'' ''b'', notif ''Y'' ''1'' ''d'']
   \<and> seen_notifications (snd (get_new_notifications poll_none fresh_xy))
       = [(''X'', {''1'', ''2''}), (''Z'', {}), (''Y'', {''1''})]
   \<and> github_get_notifications \<lparr>token = Some ''t0k''\<rparr> (RequestException ''503'') (\<lambda>s. None) (\<lambda>i. 0)
       = Returns None
   \<and> github_get_notifications \<lparr>token = Some ''  ''\<rparr> (Response (JArr [])) (\<lambda>s. None) (\<lambda>i. 0)
       = Returns None"
proof -
  note t = none_contributes_nothing [where m = fresh_xzy and pre = "[svc_x]" and s = svc_z
      and post = "[svc_y]" and w = poll_none
      and acc = batch_x and st = "(batch_x, seen_notifications fresh_xzy)"
      and g = "\<lparr>token = Some ''  ''\<rparr>" and msg = "''503''" and http = "Response (JArr [])"
      and fromisoformat = "\<lambda>s. None" and now = "\<lambda>i. 0",
      OF fresh_xzy_services poll_none_z]
  have c: "\<not> github_is_configured \<lparr>token = Some ''  ''\<rparr>"
    by (simp add: github_is_configured_def str_strip_def is_space_def)
  from t fresh_xzy_services poll_none_z poll_none_all poll_none_new c show ?thesis
    by (simp add: fresh_xy_without github_get_notifications_def polled_xzy_def)
qed

subsection \<open>C9: an id twice in one batch\<close>

text \<open>
  C9. Of the notifications of one batch, the inner loop of \<^verbatim>\<open>get_new_notifications\<close>
  appends those whose id is not in the seen set and not the id of an earlier
  notification of the batch: each appended notification is the first of the batch with
  its id, the appended ids are pairwise different, and every id of the batch is in the
  seen set afterwards. So what one provider adds to the result never has an id twice,
  hence never a source and id twice; and the whole result never has two notifications
  with the same source and id when the notifications carry their provider's name as
  source.
\<close>

theorem first_occurrence_only:
  "filter_new acc S ns = (acc @ news S ns, S \<union> id_n ` set ns)
   \<and> subseq (news S ns) ns
   \<and> distinct (map id_n (news S ns))
   \<and> id_n ` set (news S ns) = id_n ` set ns - S
   \<and> (\<forall>n \<in> set (news S ns). find (\<lambda>x. id_n x = id_n n) ns = Some n)
   \<and> get_new_step w (acc, seen) s = (acc @ contribution w seen s, seen_after w seen s)
   \<and> distinct (map id_n (contribution w seen s))
   \<and> distinct (map (\<lambda>n. (source n, id_n n)) (contribution w seen s))
   \<and> (sources_ok w (services m) \<longrightarrow>
        distinct (map (\<lambda>n. (source n, id_n n)) (fst (get_new_notifications w m))))"
proof -
  have "sources_ok w (services m) \<longrightarrow>
        distinct (map (\<lambda>n. (source n, id_n n)) (fst (get_new_notifications w m)))"
    using pairs_loop [of w "services m" "[]" "seen_notifications m"]
    by (simp add: get_new_notifications_eq)
  then show ?thesis
    using filter_new_eq [of acc S ns] news_subseq [of S ns] news_distinct [of S ns]
      news_ids [of S ns] news_first [of _ S ns] get_new_step_eq [of w acc seen s]
      contribution_distinct [of w seen s]
      distinct_pairs_of_ids [OF contribution_distinct [of w seen s]]
    by blast
qed

text \<open>
  The batch of \<open>X\<close> has the id 1 twice; the result has its first notification only.
\<close>

theorem first_occurrence_only_witness:
  "sources_ok poll_raise (services fresh_xzy)
   \<and> count_id ''1'' batch_x = 2
   \<and> filter_new [] {} batch_x
       = ([notif ''X'' ''1'' ''a'', notif ''X'' ''2'' ''b''], {''1'', ''2''})
   \<and> distinct (map id_n [notif ''X'' ''1'' ''a'', notif ''X'' ''2'' ''b''])
   \<and> fst (get_new_notifications poll_raise fresh_xzy)
       = [notif ''X'' ''1'' ''a'', notif ''X'' ''2'' ''b'', notif ''Y'' ''1'' ''d'']
   \<and> distinct (map (\<lambda>n. (source n, id_n n)) (fst (get_new_notifications poll_raise fresh_xzy)))"
proof -
  note t = first_occurrence_only [where acc = "[]" and S = "{}" and ns = batch_x
      and w = poll_raise and m = fresh_xzy]
  have c: "count_id ''1'' batch_x = 2"
    by (simp add: count_id_def batch_x_def notif_def)
  from t have "filter_new [] {} batch_x = ([] @ news {} batch_x, {} \<union> id_n ` set batch_x)"
    and "distinct (map id_n (news {} batch_x))"
    and "sources_ok poll_raise (services fresh_xzy) \<longrightarrow>
        distinct (map (\<lambda>n. (source n, id_n n)) (fst (get_new_notifications poll_raise fresh_xzy)))"
    by blast+
  with poll_raise_sources c show ?thesis
    by (simp add: batch_x_news batch_x_ids poll_raise_new)
qed

subsection \<open>C10: marking a notification of an unknown source\<close>

text \<open>
  C10. In a state that \<^verbatim>\<open>add_service\<close> built, \<^verbatim>\<open>mark_notifications_as_seen\<close> with a
  notification whose source is the name of no registered provider returns (the function
  is total: nothing in it raises) and leaves the manager, every seen set included, as it
  was; inside a longer list such a notification has no effect.
\<close>

theorem mark_unknown_source_ignored:
  assumes "manager_ok m" and "source n \<notin> set (map service_name (services m))"
  shows "mark_notifications_as_seen m [n] = m
       \<and> mark_notifications_as_seen m (pre @ n # post) = mark_notifications_as_seen m (pre @ post)"
proof -
  from assms have u: "source n \<notin> set (map fst (seen_notifications m))"
    by (simp add: manager_ok_def)
  from mark_loop_unknown [OF u, of "[]" "[]"] have "mark_loop (seen_notifications m) [n] = seen_notifications m"
    by simp
  then have "mark_notifications_as_seen m [n] = m"
    by (simp add: mark_notifications_as_seen_def)
  moreover from mark_loop_unknown [OF u, of pre post]
  have "mark_notifications_as_seen m (pre @ n # post) = mark_notifications_as_seen m (pre @ post)"
    by (simp add: mark_notifications_as_seen_def)
  ultimately show ?thesis by blast
qed

text \<open>A notification of the source \<open>Slack\<close> for a manager with the providers \<open>X\<close>, \<open>Z\<close>, \<open>Y\<close>.\<close>

theorem mark_unknown_source_ignored_witness:
  "manager_ok fresh_xzy
   \<and> source (notif ''Slack'' ''9'' ''e'') \<notin> set (map service_name (services fresh_xzy))
   \<and> mark_notifications_as_seen fresh_xzy [notif ''Slack'' ''9'' ''e''] = fresh_xzy
   \<and> mark_notifications_as_seen fresh_xzy
        ([notif ''X'' ''1'' ''a''] @ notif ''Slack'' ''9'' ''e'' # [notif ''Y'' ''1'' ''d''])
      = mark_notifications_as_seen fresh_xzy ([notif ''X'' ''1'' ''a''] @ [notif ''Y'' ''1'' ''d''])
   \<and> seen_notifications (mark_notifications_as_seen fresh_xzy
        ([notif ''X'' ''1'' ''a''] @ notif ''Slack'' ''9'' ''e'' # [notif ''Y'' ''1'' ''d'']))
      = [(''X'', {''1''}), (''Z'', {}), (''Y'', {''1''})]"
proof -
  have u: "source (notif ''Slack'' ''9'' ''e'') \<notin> set (map service_name (services fresh_xzy))"
    by (simp add: notif_def fresh_xzy_def svc_x_def svc_y_def svc_z_def)
  have v: "seen_notifications (mark_notifications_as_seen fresh_xzy
        ([notif ''X'' ''1'' ''a''] @ notif ''Slack'' ''9'' ''e'' # [notif ''Y'' ''1'' ''d'']))
      = [(''X'', {''1''}), (''Z'', {}), (''Y'', {''1''})]"
    by (simp add: mark_notifications_as_seen_def fresh_xzy_def mark_one_def notif_def)
  from mark_unknown_source_ignored [OF fresh_xzy_ok u, of "[notif ''X'' ''1'' ''a'']" "[notif ''Y'' ''1'' ''d'']"]
    fresh_xzy_ok u v
  show ?thesis by blast
qed

end
